theory Spec2Isabelle
  imports Complex_Main
begin

section \<open>Row-wise distributed matrix multiplication over MPI\<close>

text \<open>
  This theory embeds \<^verbatim>\<open>mpi_matrix_multiplication.py\<close>: the row partition of
  \<^verbatim>\<open>distribute_matrix_rows\<close>, the orchestrator \<^verbatim>\<open>mpi_matrix_multiply\<close> and the
  harness \<^verbatim>\<open>verify_correctness\<close>, together with \<^verbatim>\<open>serial_matrix_multiply\<close>.

  Python integers are \<open>int\<close>; \<^verbatim>\<open>//\<close> and \<^verbatim>\<open>%\<close> are \<open>div\<close> and \<open>mod\<close> on
  \<open>int\<close> (both round towards minus infinity), with the division by zero written out as
  an error. A two-dimensional array is the list of its rows. Array elements are of any
  type with \<open>0\<close>, \<open>+\<close> and \<open>*\<close>; no law of arithmetic is assumed of them. Where
  tolerances are compared the elements are real numbers, so the rounding of
  floating-point arithmetic is outside the model.
\<close>

subsection \<open>Arrays\<close>

type_synonym 'a matrix = "'a list list"

datatype error = ZeroDivisionError | ValueError | TypeError

text \<open>\<^verbatim>\<open>np.zeros((rows, cols))\<close>: a negative dimension raises \<^verbatim>\<open>ValueError\<close>.\<close>

definition np_zeros :: "int \<Rightarrow> int \<Rightarrow> error + ('a::zero) matrix" where
  "np_zeros rows cols =
     (if rows < 0 \<or> cols < 0 then Inl ValueError
      else Inr (replicate (nat rows) (replicate (nat cols) 0)))"

text \<open>
  Python slice bounds: a negative bound counts from the end, and every bound is clamped
  to the length.
\<close>

definition py_index :: "int \<Rightarrow> nat \<Rightarrow> nat" where
  "py_index i n = (if i < 0 then nat (max 0 (i + int n)) else min (nat i) n)"

definition py_slice :: "'b list \<Rightarrow> int \<Rightarrow> int \<Rightarrow> 'b list" where
  "py_slice xs a b =
     (let lo = py_index a (length xs); hi = py_index b (length xs)
      in take (hi - lo) (drop lo xs))"

text \<open>
  \<^verbatim>\<open>C[a:b] = data\<close> on the rows of \<open>C\<close>: the block must have as many rows as the
  slice, or a single row that is repeated; anything else raises \<^verbatim>\<open>ValueError\<close>.
\<close>

definition set_rows :: "'a matrix \<Rightarrow> int \<Rightarrow> int \<Rightarrow> 'a matrix \<Rightarrow> error + 'a matrix" where
  "set_rows C a b data =
     (let lo = py_index a (length C); hi = py_index b (length C); k = hi - lo
      in if length data = k then Inr (take lo C @ data @ drop (lo + k) C)
         else if length data = 1 then Inr (take lo C @ replicate k (hd data) @ drop (lo + k) C)
         else Inl ValueError)"

text \<open>
  \<^verbatim>\<open>np.dot(A, B)\<close> for two-dimensional arrays: \<open>C[i][j]\<close> is the sum over \<open>p\<close> of
  \<open>A[i][p] * B[p][j]\<close>, accumulated from 0 in the order of \<open>p\<close>; the inner dimensions
  must agree. Row \<open>i\<close> of the product is computed from row \<open>i\<close> of \<open>A\<close> and from \<open>B\<close>:
  the model does not represent that the library's kernel may round the rows of a block
  differently from the same rows of a larger matrix.
\<close>

definition ncols :: "'a matrix \<Rightarrow> nat" where
  "ncols B = (case B of [] \<Rightarrow> 0 | r # _ \<Rightarrow> length r)"

definition dot_row :: "('a::{zero,plus,times}) list \<Rightarrow> 'a matrix \<Rightarrow> 'a list" where
  "dot_row row B =
     map (\<lambda>j. foldl (\<lambda>acc p. acc + row ! p * B ! p ! j) 0 [0..<length B]) [0..<ncols B]"

definition np_dot :: "('a::{zero,plus,times}) matrix \<Rightarrow> 'a matrix \<Rightarrow> error + 'a matrix" where
  "np_dot A B =
     (if \<forall>row \<in> set A. length row = length B then Inr (map (\<lambda>row. dot_row row B) A)
      else Inl ValueError)"

definition serial_matrix_multiply :: "('a::{zero,plus,times}) matrix \<Rightarrow> 'a matrix \<Rightarrow> error + 'a matrix" where
  "serial_matrix_multiply A B = np_dot A B"

subsection \<open>The pseudo-random generator\<close>

text \<open>
  The global generator of \<^verbatim>\<open>np.random\<close> is a stream of samples and a position in it.
  \<^verbatim>\<open>np.random.seed(s)\<close> replaces the generator by the stream \<open>mt s\<close> of the seed, at
  position 0; the Mersenne Twister itself is the parameter \<open>mt\<close>.
  \<^verbatim>\<open>np.random.rand(rows, cols)\<close> takes the next \<open>rows * cols\<close> samples in row-major
  order and raises \<^verbatim>\<open>ValueError\<close> on a negative dimension.
\<close>

record 'a rng =
  stream :: "nat \<Rightarrow> 'a"
  pos :: nat

definition np_random_seed :: "(int \<Rightarrow> nat \<Rightarrow> 'a) \<Rightarrow> int \<Rightarrow> 'a rng" where
  "np_random_seed mt s = \<lparr>stream = mt s, pos = 0\<rparr>"

definition np_random_rand :: "'a rng \<Rightarrow> int \<Rightarrow> int \<Rightarrow> error + ('a matrix \<times> 'a rng)" where
  "np_random_rand g rows cols =
     (if rows < 0 \<or> cols < 0 then Inl ValueError
      else Inr (map (\<lambda>i. map (\<lambda>j. stream g (pos g + i * nat cols + j)) [0..<nat cols]) [0..<nat rows],
                g\<lparr>pos := pos g + nat rows * nat cols\<rparr>))"

text \<open>
  \<^verbatim>\<open>initialize_matrices(size, rank)\<close>; \<open>g\<close> is the state of the global generator when
  the call is made.
\<close>

definition initialize_matrices ::
  "(int \<Rightarrow> nat \<Rightarrow> 'a) \<Rightarrow> 'a rng \<Rightarrow> int \<Rightarrow> int \<Rightarrow> error + ('a matrix option \<times> 'a matrix option)" where
  "initialize_matrices mt g sz rank =
     (if rank = 0 then
        (let g0 = np_random_seed mt 42
         in case np_random_rand g0 sz sz of
              Inl e \<Rightarrow> Inl e
            | Inr (A, g1) \<Rightarrow>
                (case np_random_rand g1 sz sz of
                   Inl e \<Rightarrow> Inl e
                 | Inr (B, g2) \<Rightarrow> Inr (Some A, Some B)))
      else Inr (None, None))"

subsection \<open>Processes and the communicator\<close>

text \<open>
  The program of one rank is a tree of blocking communicator calls: each node is a call
  of \<^verbatim>\<open>comm.bcast\<close>, \<^verbatim>\<open>comm.send\<close> or \<^verbatim>\<open>comm.recv\<close> with the rest of the program
  as its continuation, and a leaf is the returned value or the raised exception.
\<close>

datatype ('a, 'r) prog =
    Return 'r
  | Raise error
  | Bcast "'a matrix option" int "'a matrix option \<Rightarrow> ('a, 'r) prog"
  | Send "'a matrix" int int "('a, 'r) prog"
  | Recv int int "'a matrix \<Rightarrow> ('a, 'r) prog"

text \<open>Lines 28 to 37 of \<^verbatim>\<open>distribute_matrix_rows\<close>: \<open>(local_rows, start_row)\<close>.\<close>

definition row_range :: "int \<Rightarrow> int \<Rightarrow> int \<Rightarrow> int \<times> int" where
  "row_range sz rank num_procs =
     (let rows_per_proc = sz div num_procs; remainder = sz mod num_procs
      in if rank < remainder then (rows_per_proc + 1, rank * (rows_per_proc + 1))
         else (rows_per_proc, remainder * (rows_per_proc + 1) + (rank - remainder) * rows_per_proc))"

text \<open>The loop of the root over \<^verbatim>\<open>range(1, num_procs)\<close>, lines 44 to 53.\<close>

fun scatter_sends ::
  "'a matrix \<Rightarrow> int \<Rightarrow> int \<Rightarrow> int list \<Rightarrow> ('a, 'r) prog \<Rightarrow> ('a, 'r) prog" where
  "scatter_sends A rows_per_proc remainder [] k = k"
| "scatter_sends A rows_per_proc remainder (proc # procs) k =
     (let (proc_rows, proc_start) =
            (if proc < remainder then (rows_per_proc + 1, proc * (rows_per_proc + 1))
             else (rows_per_proc,
                   remainder * (rows_per_proc + 1) + (proc - remainder) * rows_per_proc))
      in if proc_rows > 0
         then Send (py_slice A proc_start (proc_start + proc_rows)) proc proc
                (scatter_sends A rows_per_proc remainder procs k)
         else scatter_sends A rows_per_proc remainder procs k)"

text \<open>
  \<^verbatim>\<open>distribute_matrix_rows(A, size, comm, rank, num_procs)\<close>; the continuation \<open>k\<close>
  receives the returned triple \<open>(local_A, local_rows, start_row)\<close>. \<open>A\<close> is \<open>None\<close> on
  every rank but the root.
\<close>

definition distribute_matrix_rows ::
  "('a::zero) matrix option \<Rightarrow> int \<Rightarrow> int \<Rightarrow> int \<Rightarrow>
   ('a matrix \<times> int \<times> int \<Rightarrow> ('a, 'r) prog) \<Rightarrow> ('a, 'r) prog" where
  "distribute_matrix_rows A sz rank num_procs k =
     (if num_procs = 0 then Raise ZeroDivisionError
      else
        let rows_per_proc = sz div num_procs;
            remainder = sz mod num_procs;
            (local_rows, start_row) = row_range sz rank num_procs
        in case np_zeros local_rows sz of
             Inl e \<Rightarrow> Raise e
           | Inr local_A \<Rightarrow>
               if rank = 0 then
                 (case A of
                    None \<Rightarrow> Raise TypeError
                  | Some A' \<Rightarrow>
                      scatter_sends A' rows_per_proc remainder [1..num_procs - 1]
                        (k (py_slice A' start_row (start_row + local_rows), local_rows, start_row)))
               else if local_rows > 0 then Recv 0 rank (\<lambda>local_A. k (local_A, local_rows, start_row))
               else k (local_A, local_rows, start_row))"

text \<open>
  The loop of the root over \<^verbatim>\<open>range(1, num_procs)\<close>, lines 89 to 100. Its body runs
  only for \<open>num_procs \<ge> 2\<close>, and \<^verbatim>\<open>distribute_matrix_rows\<close> has divided by
  \<open>num_procs\<close> before, so the divisions of the body cannot fail.
\<close>

fun gather_recvs ::
  "int \<Rightarrow> int \<Rightarrow> int list \<Rightarrow> 'a matrix \<Rightarrow> ('a, 'a matrix option) prog" where
  "gather_recvs sz num_procs [] C = Return (Some C)"
| "gather_recvs sz num_procs (proc # procs) C =
     (let (proc_rows, proc_start) =
            (if proc < sz mod num_procs
             then (sz div num_procs + 1, proc * (sz div num_procs + 1))
             else (sz div num_procs,
                   (sz mod num_procs) * (sz div num_procs + 1)
                     + (proc - sz mod num_procs) * (sz div num_procs)))
      in if proc_rows > 0
         then Recv proc (proc + 100)
                (\<lambda>received_data.
                   case set_rows C proc_start (proc_start + proc_rows) received_data of
                     Inl e \<Rightarrow> Raise e
                   | Inr C' \<Rightarrow> gather_recvs sz num_procs procs C')
         else gather_recvs sz num_procs procs C)"

text \<open>\<^verbatim>\<open>mpi_matrix_multiply(size, comm, rank, num_procs)\<close>.\<close>

definition mpi_matrix_multiply ::
  "(int \<Rightarrow> nat \<Rightarrow> 'a) \<Rightarrow> 'a rng \<Rightarrow> int \<Rightarrow> int \<Rightarrow> int \<Rightarrow>
   ('a::{zero,plus,times}, 'a matrix option) prog" where
  "mpi_matrix_multiply mt g sz rank num_procs =
     (case initialize_matrices mt g sz rank of
        Inl e \<Rightarrow> Raise e
      | Inr (A, B0) \<Rightarrow>
          Bcast B0 0 (\<lambda>B.
            distribute_matrix_rows A sz rank num_procs (\<lambda>(local_A, local_rows, start_row).
              case np_zeros local_rows sz of
                Inl e \<Rightarrow> Raise e
              | Inr zeros_C \<Rightarrow>
                  (case (if local_rows > 0
                         then (case B of None \<Rightarrow> Inl TypeError | Some B' \<Rightarrow> np_dot local_A B')
                         else Inr zeros_C) of
                     Inl e \<Rightarrow> Raise e
                   | Inr local_C \<Rightarrow>
                       if rank = 0 then
                         (case np_zeros sz sz of
                            Inl e \<Rightarrow> Raise e
                          | Inr C0 \<Rightarrow>
                              (case set_rows C0 start_row (start_row + local_rows) local_C of
                                 Inl e \<Rightarrow> Raise e
                               | Inr C \<Rightarrow> gather_recvs sz num_procs [1..num_procs - 1] C))
                       else if local_rows > 0
                         then Send local_C 0 (rank + 100) (Return None)
                         else Return None))))"

subsection \<open>The process group\<close>

text \<open>
  A world is the list of the programs of ranks \<open>0, 1, \<dots>\<close>, each at its next blocking
  call. \<^verbatim>\<open>bcast\<close> is collective: it completes when every rank has called it with the
  same root, and every rank continues with the root's value. A \<^verbatim>\<open>send\<close> completes
  together with the \<^verbatim>\<open>recv\<close> it meets: the destination must be blocked in a
  \<^verbatim>\<open>recv\<close> that names the sender as source and carries the same tag. A call with no
  counterpart blocks for ever. Where several steps are possible, the scheduler takes the
  broadcast first and then the transfer of the lowest sending rank.
\<close>

datatype event = Broadcast int | Transfer int int int

fun at_bcast :: "int \<Rightarrow> ('a, 'r) prog \<Rightarrow> bool" where
  "at_bcast r (Bcast v r' k) = (r' = r)"
| "at_bcast r _ = False"

fun bcast_value :: "('a, 'r) prog \<Rightarrow> 'a matrix option" where
  "bcast_value (Bcast v r k) = v"
| "bcast_value _ = None"

fun after_bcast :: "'a matrix option \<Rightarrow> ('a, 'r) prog \<Rightarrow> ('a, 'r) prog" where
  "after_bcast v (Bcast v' r k) = k v"
| "after_bcast v p = p"

definition bcast_ready :: "('a, 'r) prog list \<Rightarrow> int option" where
  "bcast_ready w =
     (case w of
        Bcast v r k # _ \<Rightarrow>
          if 0 \<le> r \<and> nat r < length w \<and> list_all (at_bcast r) w then Some r else None
      | _ \<Rightarrow> None)"

fun matches :: "int \<Rightarrow> int \<Rightarrow> ('a, 'r) prog \<Rightarrow> bool" where
  "matches s t (Recv s' t' f) = (s' = s \<and> t' = t)"
| "matches s t _ = False"

fun receive :: "'a matrix \<Rightarrow> ('a, 'r) prog \<Rightarrow> ('a, 'r) prog" where
  "receive m (Recv s t f) = f m"
| "receive m p = p"

definition try_deliver :: "('a, 'r) prog list \<Rightarrow> nat \<Rightarrow> (event \<times> ('a, 'r) prog list) option" where
  "try_deliver w i =
     (case w ! i of
        Send m d t k \<Rightarrow>
          if 0 \<le> d \<and> nat d < length w \<and> matches (int i) t (w ! nat d)
          then Some (Transfer (int i) d t, w[i := k, nat d := receive m (w ! nat d)])
          else None
      | _ \<Rightarrow> None)"

fun first_delivery ::
  "('a, 'r) prog list \<Rightarrow> nat list \<Rightarrow> (event \<times> ('a, 'r) prog list) option" where
  "first_delivery w [] = None"
| "first_delivery w (i # js) =
     (case try_deliver w i of Some x \<Rightarrow> Some x | None \<Rightarrow> first_delivery w js)"

definition world_step :: "('a, 'r) prog list \<Rightarrow> (event \<times> ('a, 'r) prog list) option" where
  "world_step w =
     (case bcast_ready w of
        Some r \<Rightarrow> Some (Broadcast r, map (after_bcast (bcast_value (w ! nat r))) w)
      | None \<Rightarrow> first_delivery w [0..<length w])"

text \<open>
  All the steps that are possible in a world: the broadcast, and every transfer whose
  \<^verbatim>\<open>send\<close> has met its \<^verbatim>\<open>recv\<close>.
\<close>

definition enabled :: "('a, 'r) prog list \<Rightarrow> (event \<times> ('a, 'r) prog list) list" where
  "enabled w =
     (case bcast_ready w of
        Some r \<Rightarrow> [(Broadcast r, map (after_bcast (bcast_value (w ! nat r))) w)]
      | None \<Rightarrow> [])
     @ List.map_filter (try_deliver w) [0..<length w]"

text \<open>
  Running a world for at most \<open>fuel\<close> steps gives the events that happened and the world
  reached. A world in which no step is possible is left as it is.
\<close>

fun run :: "nat \<Rightarrow> ('a, 'r) prog list \<Rightarrow> event list \<times> ('a, 'r) prog list" where
  "run 0 w = ([], w)"
| "run (Suc fuel) w =
     (case world_step w of
        None \<Rightarrow> ([], w)
      | Some (e, w') \<Rightarrow> (case run fuel w' of (es, w'') \<Rightarrow> (e # es, w'')))"

text \<open>
  \<open>execs w es w'\<close>: some complete execution of the world \<open>w\<close>, the possible steps taken
  in any order, has the events \<open>es\<close> and ends in \<open>w'\<close>, where no step is possible.
\<close>

inductive execs ::
  "('a, 'r) prog list \<Rightarrow> event list \<Rightarrow> ('a, 'r) prog list \<Rightarrow> bool" where
  execs_done: "enabled w = [] \<Longrightarrow> execs w [] w"
| execs_step: "(e, w') \<in> set (enabled w) \<Longrightarrow> execs w' es w'' \<Longrightarrow> execs w (e # es) w''"

text \<open>
  \<open>steps w es w'\<close>: the world \<open>w\<close> reaches \<open>w'\<close> by the steps with events \<open>es\<close>, and
  in every world on the way the step taken was the only one possible.
\<close>

inductive steps ::
  "('a, 'r) prog list \<Rightarrow> event list \<Rightarrow> ('a, 'r) prog list \<Rightarrow> bool" where
  steps_refl: "steps w [] w"
| steps_step: "enabled w = [(e, w')] \<Longrightarrow> steps w' es w'' \<Longrightarrow> steps w (e # es) w''"

text \<open>A program that is not sending, or is sending to the root.\<close>

fun to_root :: "('a, 'r) prog \<Rightarrow> bool" where
  "to_root (Send m d t k) = (d = 0)"
| "to_root _ = True"

fun returned :: "('a, 'r) prog \<Rightarrow> bool" where
  "returned (Return x) = True"
| "returned _ = False"

text \<open>One call of \<^verbatim>\<open>mpi_matrix_multiply\<close> on every rank of a group of \<open>num_procs\<close>.\<close>

definition mpi_world ::
  "(int \<Rightarrow> nat \<Rightarrow> 'a) \<Rightarrow> 'a rng \<Rightarrow> int \<Rightarrow> int \<Rightarrow> ('a::{zero,plus,times}, 'a matrix option) prog list" where
  "mpi_world mt g sz num_procs =
     map (\<lambda>rank. mpi_matrix_multiply mt g sz rank num_procs) [0..num_procs - 1]"

text \<open>
  One call of \<^verbatim>\<open>mpi_matrix_multiply\<close> with the argument \<open>num_procs\<close> on every rank of
  a group of \<open>group_size\<close> ranks, whether or not the argument is the size of the group.
\<close>

definition mpi_group ::
  "(int \<Rightarrow> nat \<Rightarrow> 'a) \<Rightarrow> 'a rng \<Rightarrow> int \<Rightarrow> int \<Rightarrow> int \<Rightarrow>
   ('a::{zero,plus,times}, 'a matrix option) prog list" where
  "mpi_group mt g sz num_procs group_size =
     map (\<lambda>rank. mpi_matrix_multiply mt g sz rank num_procs) [0..group_size - 1]"

text \<open>
  The tags of the transfers of a run, by phase: the scatter phase is every transfer that
  the root sends, the gather phase every transfer that the root receives.
\<close>

fun scatter_tags :: "event list \<Rightarrow> int list" where
  "scatter_tags [] = []"
| "scatter_tags (Transfer s d t # es) = (if s = 0 then t # scatter_tags es else scatter_tags es)"
| "scatter_tags (Broadcast r # es) = scatter_tags es"

fun gather_tags :: "event list \<Rightarrow> int list" where
  "gather_tags [] = []"
| "gather_tags (Transfer s d t # es) = (if d = 0 then t # gather_tags es else gather_tags es)"
| "gather_tags (Broadcast r # es) = gather_tags es"

subsection \<open>The verification harness\<close>

text \<open>
  \<^verbatim>\<open>np.allclose(a, b, rtol, atol)\<close> on two arrays of the same shape: every pair of
  elements satisfies \<open>\<bar>a - b\<bar> \<le> atol + rtol * \<bar>b\<bar>\<close>. Arrays of different shapes
  are not broadcast here: they give \<^verbatim>\<open>ValueError\<close>.
\<close>

definition same_shape :: "'a matrix \<Rightarrow> 'b matrix \<Rightarrow> bool" where
  "same_shape a b = list_all2 (\<lambda>r s. length r = length s) a b"

definition np_allclose :: "real matrix \<Rightarrow> real matrix \<Rightarrow> real \<Rightarrow> real \<Rightarrow> error + bool" where
  "np_allclose a b rtol atol =
     (if same_shape a b
      then Inr (list_all2 (list_all2 (\<lambda>x y. \<bar>x - y\<bar> \<le> atol + rtol * \<bar>y\<bar>)) a b)
      else Inl ValueError)"

text \<open>
  \<^verbatim>\<open>np.max(np.abs(a - b))\<close>: the largest element of the array of absolute differences;
  \<^verbatim>\<open>np.max\<close> of an array with no element raises \<^verbatim>\<open>ValueError\<close>.
\<close>

definition np_max :: "real matrix \<Rightarrow> error + real" where
  "np_max M = (case concat M of [] \<Rightarrow> Inl ValueError | x # xs \<Rightarrow> Inr (fold max xs x))"

definition np_abs_diff :: "real matrix \<Rightarrow> real matrix \<Rightarrow> error + real matrix" where
  "np_abs_diff a b =
     (if same_shape a b then Inr (map2 (map2 (\<lambda>x y. \<bar>x - y\<bar>)) a b) else Inl ValueError)"

text \<open>Sequencing: the calls of \<open>p\<close>, then those of \<open>f\<close> on the value \<open>p\<close> returns.\<close>

primrec bind :: "('a, 'r) prog \<Rightarrow> ('r \<Rightarrow> ('a, 's) prog) \<Rightarrow> ('a, 's) prog" where
  "bind (Return x) f = f x"
| "bind (Raise e) f = Raise e"
| "bind (Bcast v r k) f = Bcast v r (\<lambda>x. bind (k x) f)"
| "bind (Send m d t k) f = Send m d t (bind k f)"
| "bind (Recv s t k) f = Recv s t (\<lambda>x. bind (k x) f)"

record comm =
  Get_size :: int

datatype message = Verifying int | Correct | HasErrors | MaxDifference real

text \<open>
  Lines 162 to 173 of \<^verbatim>\<open>verify_correctness\<close>: the comparison on the root and the
  returned value, with the lines printed so far in \<open>out\<close>. \<open>C_serial\<close> is unbound
  (\<open>None\<close>) on every rank but the root. What a rank has printed is returned with its
  value; the lines printed before an exception are not kept.
\<close>

definition verify_compare ::
  "int \<Rightarrow> real matrix option \<Rightarrow> message list \<Rightarrow> real matrix option \<Rightarrow>
   (real, bool option \<times> message list) prog" where
  "verify_compare rank C_serial out C_mpi =
     (if rank = 0 then
        (case (C_serial, C_mpi) of
           (Some S, Some M) \<Rightarrow>
             (case np_allclose S M (1 / 10 ^ 10) (1 / 10 ^ 10) of
                Inl e \<Rightarrow> Raise e
              | Inr ok \<Rightarrow>
                  if ok then Return (Some True, out @ [Correct])
                  else
                    (case np_abs_diff S M of
                       Inl e \<Rightarrow> Raise e
                     | Inr D \<Rightarrow>
                         (case np_max D of
                            Inl e \<Rightarrow> Raise e
                          | Inr max_diff \<Rightarrow>
                              Return (Some False, out @ [HasErrors, MaxDifference max_diff]))))
         | _ \<Rightarrow> Raise TypeError)
      else Return (None, out))"

text \<open>\<^verbatim>\<open>verify_correctness(size, comm, rank)\<close>.\<close>

definition verify_correctness ::
  "(int \<Rightarrow> nat \<Rightarrow> real) \<Rightarrow> real rng \<Rightarrow> int \<Rightarrow> comm \<Rightarrow> int \<Rightarrow>
   (real, bool option \<times> message list) prog" where
  "verify_correctness mt g sz comm rank =
     (case (if rank = 0 then
              (let g0 = np_random_seed mt 42
               in case np_random_rand g0 sz sz of
                    Inl e \<Rightarrow> Inl e
                  | Inr (A, g1) \<Rightarrow>
                      (case np_random_rand g1 sz sz of
                         Inl e \<Rightarrow> Inl e
                       | Inr (B, g2) \<Rightarrow>
                           (case np_dot A B of
                              Inl e \<Rightarrow> Inl e
                            | Inr C_serial \<Rightarrow> Inr (Some C_serial, [Verifying sz], g2))))
            else Inr (None, [], g)) of
        Inl e \<Rightarrow> Raise e
      | Inr (C_serial, out, g') \<Rightarrow>
          bind (mpi_matrix_multiply mt g' sz rank (Get_size comm))
            (verify_compare rank C_serial out))"

text \<open>One call of \<^verbatim>\<open>verify_correctness\<close> on every rank of a group of \<open>num_procs\<close>.\<close>

definition verify_world ::
  "(int \<Rightarrow> nat \<Rightarrow> real) \<Rightarrow> real rng \<Rightarrow> int \<Rightarrow> int \<Rightarrow>
   (real, bool option \<times> message list) prog list" where
  "verify_world mt g sz num_procs =
     map (\<lambda>rank. verify_correctness mt g sz \<lparr>Get_size = num_procs\<rparr> rank) [0..num_procs - 1]"

text \<open>A program that makes no further call: it has returned or raised.\<close>

fun leaf :: "('a, 'r) prog \<Rightarrow> bool" where
  "leaf (Return x) = True"
| "leaf (Raise e) = True"
| "leaf _ = False"

text \<open>A world in which rank \<open>i\<close> goes on with \<open>fs i\<close> once its program has returned.\<close>

definition then_each ::
  "(nat \<Rightarrow> 'r \<Rightarrow> ('a, 's) prog) \<Rightarrow> ('a, 'r) prog list \<Rightarrow> ('a, 's) prog list" where
  "then_each fs w = map (\<lambda>i. bind (w ! i) (fs i)) [0..<length w]"

subsection \<open>A fixture\<close>

text \<open>
  A generator for concrete runs: whatever the seed, the samples are \<open>0, 1, 2, \<dots>\<close>; and a
  state of the global generator as some earlier use may have left it.
\<close>

definition ramp_stream :: "int \<Rightarrow> nat \<Rightarrow> real" where
  "ramp_stream s i = real i"

definition used_rng :: "real rng" where
  "used_rng = \<lparr>stream = (\<lambda>i. 7), pos = 3\<rparr>"

section \<open>The row partition\<close>

text \<open>
  The start row and the row count of a rank have closed forms; consecutive ranges are
  adjacent, and the range after the last rank would start at \<open>sz\<close>.
\<close>

lemma row_range_rows:
  "fst (row_range sz r n) = sz div n + (if r < sz mod n then 1 else 0)"
  by (simp add: row_range_def Let_def)

lemma row_range_start:
  "snd (row_range sz r n) = r * (sz div n) + min r (sz mod n)"
  by (simp add: row_range_def Let_def algebra_simps)

lemma row_range_next:
  "snd (row_range sz (r + 1) n) = snd (row_range sz r n) + fst (row_range sz r n)"
  by (simp add: row_range_rows row_range_start algebra_simps min_def)

lemma row_range_end:
  assumes "0 < n"
  shows "snd (row_range sz n n) = sz"
proof -
  have "sz mod n < n" using assms by simp
  then have "min n (sz mod n) = sz mod n" by simp
  then show ?thesis by (simp add: row_range_start)
qed

lemma row_range_rows_nonneg:
  assumes "0 \<le> sz" "0 < n"
  shows "0 \<le> fst (row_range sz r n)"
proof -
  have "0 \<le> sz div n" using assms by (simp add: pos_imp_zdiv_nonneg_iff)
  then show ?thesis by (simp add: row_range_rows)
qed

lemma row_range_start_mono:
  assumes "0 \<le> sz" "0 < n" "r \<le> r'"
  shows "snd (row_range sz r n) \<le> snd (row_range sz r' n)"
proof -
  have "0 \<le> sz div n" using assms by (simp add: pos_imp_zdiv_nonneg_iff)
  then have "r * (sz div n) \<le> r' * (sz div n)" using assms(3) by (simp add: mult_right_mono)
  moreover have "min r (sz mod n) \<le> min r' (sz mod n)" using assms(3) by simp
  ultimately show ?thesis by (simp add: row_range_start add_mono)
qed

lemma row_range_first:
  assumes "0 < n"
  shows "snd (row_range sz 0 n) = 0"
proof -
  have "0 \<le> sz mod n" using assms by simp
  then show ?thesis by (simp add: row_range_start)
qed

lemma row_range_sum:
  assumes "0 < n"
  shows "(\<Sum>r \<in> {0..<int k}. fst (row_range sz r n)) = snd (row_range sz (int k) n)"
proof (induction k)
  case 0
  show ?case by (simp add: row_range_first [OF assms])
next
  case (Suc k)
  have "{0..<int (Suc k)} = insert (int k) {0..<int k}" by auto
  then have "(\<Sum>r \<in> {0..<int (Suc k)}. fst (row_range sz r n))
               = fst (row_range sz (int k) n) + (\<Sum>r \<in> {0..<int k}. fst (row_range sz r n))"
    by simp
  also have "\<dots> = snd (row_range sz (int k + 1) n)"
    by (simp add: Suc.IH row_range_next)
  finally show ?case by (simp add: add.commute)
qed

lemma row_range_owner_below:
  assumes "0 < n" "0 \<le> i" "i < snd (row_range sz (int k) n)"
  shows "\<exists>r. 0 \<le> r \<and> r < int k \<and> snd (row_range sz r n) \<le> i
            \<and> i < snd (row_range sz r n) + fst (row_range sz r n)"
  using assms(3)
proof (induction k)
  case 0
  then show ?case using assms(2) by (simp add: row_range_first [OF assms(1)])
next
  case (Suc k)
  show ?case
  proof (cases "i < snd (row_range sz (int k) n)")
    case True
    from Suc.IH [OF True] show ?thesis by fastforce
  next
    case False
    have "snd (row_range sz (int k + 1) n) = snd (row_range sz (int k) n) + fst (row_range sz (int k) n)"
      by (rule row_range_next)
    with Suc.prems False have "snd (row_range sz (int k) n) \<le> i
        \<and> i < snd (row_range sz (int k) n) + fst (row_range sz (int k) n)"
      by (simp add: add.commute)
    then show ?thesis by (intro exI [of _ "int k"]) simp
  qed
qed

lemma row_range_disjoint:
  assumes "0 \<le> sz" "0 < n" "r < r'"
  shows "snd (row_range sz r n) + fst (row_range sz r n) \<le> snd (row_range sz r' n)"
proof -
  have "snd (row_range sz (r + 1) n) \<le> snd (row_range sz r' n)"
    using assms by (intro row_range_start_mono) auto
  then show ?thesis by (simp add: row_range_next)
qed

text \<open>
  Claim C2. For every matrix size \<open>sz \<ge> 0\<close> and every process count
  \<open>num_procs \<ge> 1\<close>, the row ranges \<open>(local_rows, start_row)\<close> of ranks
  \<open>0 \<dots> num_procs - 1\<close> start at row 0, have non-negative counts, follow one another
  in rank order without a gap, end at row \<open>sz\<close>, are pairwise disjoint, cover exactly
  the rows \<open>0 \<dots> sz - 1\<close>, and their counts add up to \<open>sz\<close>.
\<close>

theorem partition_exact:
  assumes "0 \<le> sz" and "1 \<le> num_procs"
  shows "snd (row_range sz 0 num_procs) = 0
     \<and> (\<forall>r. 0 \<le> r \<and> r < num_procs \<longrightarrow> 0 \<le> fst (row_range sz r num_procs))
     \<and> (\<forall>r. 0 \<le> r \<and> r + 1 < num_procs \<longrightarrow>
           snd (row_range sz (r + 1) num_procs)
             = snd (row_range sz r num_procs) + fst (row_range sz r num_procs))
     \<and> snd (row_range sz (num_procs - 1) num_procs) + fst (row_range sz (num_procs - 1) num_procs) = sz
     \<and> (\<forall>r r'. 0 \<le> r \<and> r < r' \<and> r' < num_procs \<longrightarrow>
           {snd (row_range sz r num_procs) ..< snd (row_range sz r num_procs) + fst (row_range sz r num_procs)}
           \<inter> {snd (row_range sz r' num_procs) ..< snd (row_range sz r' num_procs) + fst (row_range sz r' num_procs)} = {})
     \<and> (\<Union>r \<in> {0..<num_procs}.
           {snd (row_range sz r num_procs) ..< snd (row_range sz r num_procs) + fst (row_range sz r num_procs)})
         = {0..<sz}
     \<and> (\<Sum>r \<in> {0..<num_procs}. fst (row_range sz r num_procs)) = sz"
proof -
  let ?rows = "\<lambda>r. fst (row_range sz r num_procs)"
  let ?start = "\<lambda>r. snd (row_range sz r num_procs)"
  have pos: "0 < num_procs" using assms(2) by simp
  have n_eq: "int (nat num_procs) = num_procs" using pos by simp
  have c1: "?start 0 = 0" by (rule row_range_first [OF pos])
  have c2: "\<forall>r. 0 \<le> r \<and> r < num_procs \<longrightarrow> 0 \<le> ?rows r"
    using row_range_rows_nonneg [OF assms(1) pos] by blast
  have c3: "\<forall>r. 0 \<le> r \<and> r + 1 < num_procs \<longrightarrow> ?start (r + 1) = ?start r + ?rows r"
    by (simp add: row_range_next)
  have c4: "?start (num_procs - 1) + ?rows (num_procs - 1) = sz"
    using row_range_next [of sz "num_procs - 1" num_procs] row_range_end [OF pos, of sz] by simp
  have c5: "\<forall>r r'. 0 \<le> r \<and> r < r' \<and> r' < num_procs \<longrightarrow>
           {?start r ..< ?start r + ?rows r} \<inter> {?start r' ..< ?start r' + ?rows r'} = {}"
  proof (intro allI impI)
    fix r r' assume "0 \<le> r \<and> r < r' \<and> r' < num_procs"
    then have "?start r + ?rows r \<le> ?start r'"
      using row_range_disjoint [OF assms(1) pos] by blast
    then show "{?start r ..< ?start r + ?rows r} \<inter> {?start r' ..< ?start r' + ?rows r'} = {}"
      by auto
  qed
  have c6: "(\<Union>r \<in> {0..<num_procs}. {?start r ..< ?start r + ?rows r}) = {0..<sz}"
  proof (intro equalityI subsetI)
    fix i assume "i \<in> (\<Union>r \<in> {0..<num_procs}. {?start r ..< ?start r + ?rows r})"
    then obtain r where r: "0 \<le> r" "r < num_procs" "?start r \<le> i" "i < ?start r + ?rows r"
      by auto
    have "?start 0 \<le> ?start r" using r(1) by (intro row_range_start_mono [OF assms(1) pos])
    then have "0 \<le> i" using c1 r(3) by simp
    have "?start (r + 1) \<le> ?start num_procs"
      using r(2) by (intro row_range_start_mono [OF assms(1) pos]) simp
    then have "i < sz" using r(4) row_range_end [OF pos, of sz] by (simp add: row_range_next)
    with \<open>0 \<le> i\<close> show "i \<in> {0..<sz}" by simp
  next
    fix i assume "i \<in> {0..<sz}"
    then have "0 \<le> i" "i < ?start (int (nat num_procs))"
      using row_range_end [OF pos, of sz] n_eq by simp_all
    from row_range_owner_below [OF pos this] n_eq
    show "i \<in> (\<Union>r \<in> {0..<num_procs}. {?start r ..< ?start r + ?rows r})" by auto
  qed
  have c7: "(\<Sum>r \<in> {0..<num_procs}. ?rows r) = sz"
    using row_range_sum [OF pos, where k = "nat num_procs" and sz = sz] row_range_end [OF pos, of sz] n_eq by simp
  from c1 c2 c3 c4 c5 c6 c7 show ?thesis by blast
qed

theorem partition_exact_witness:
  "(0::int) \<le> 5 \<and> (1::int) \<le> 3
   \<and> snd (row_range 5 0 3) = 0
   \<and> snd (row_range 5 2 3) + fst (row_range 5 2 3) = 5
   \<and> (\<Sum>r \<in> {0..<3}. fst (row_range 5 r 3)) = 5"
  using partition_exact [of 5 3] by simp

text \<open>
  Claim C3. With \<open>base = sz div num_procs\<close> and \<open>remainder = sz mod num_procs\<close>,
  rank \<open>r\<close> gets \<open>base + 1\<close> rows from row \<open>r * (base + 1)\<close> when
  \<open>r < remainder\<close>, and \<open>base\<close> rows from row
  \<open>remainder * (base + 1) + (r - remainder) * base\<close> otherwise; the ranks with
  \<open>base + 1\<close> rows are exactly \<open>0 \<dots> remainder - 1\<close>, the ranks with \<open>base\<close>
  rows exactly \<open>remainder \<dots> num_procs - 1\<close>. For 5 rows on 3 ranks the ranges are
  rows 0 to 1, rows 2 to 3 and row 4.
\<close>

theorem remainder_distribution:
  assumes "0 \<le> sz" and "1 \<le> num_procs"
  shows "(\<forall>rank. 0 \<le> rank \<and> rank < num_procs \<longrightarrow>
            row_range sz rank num_procs
              = (if rank < sz mod num_procs
                 then (sz div num_procs + 1, rank * (sz div num_procs + 1))
                 else (sz div num_procs,
                       (sz mod num_procs) * (sz div num_procs + 1)
                         + (rank - sz mod num_procs) * (sz div num_procs))))
     \<and> {rank. 0 \<le> rank \<and> rank < num_procs
               \<and> fst (row_range sz rank num_procs) = sz div num_procs + 1}
         = {0..<sz mod num_procs}
     \<and> {rank. 0 \<le> rank \<and> rank < num_procs
               \<and> fst (row_range sz rank num_procs) = sz div num_procs}
         = {sz mod num_procs..<num_procs}
     \<and> map (\<lambda>rank. row_range 5 rank 3) [0, 1, 2] = [(2, 0), (2, 2), (1, 4)]"
proof -
  have pos: "0 < num_procs" using assms(2) by simp
  have lt: "sz mod num_procs < num_procs" and ge: "0 \<le> sz mod num_procs"
    using pos by simp_all
  have a: "\<forall>rank. 0 \<le> rank \<and> rank < num_procs \<longrightarrow>
            row_range sz rank num_procs
              = (if rank < sz mod num_procs
                 then (sz div num_procs + 1, rank * (sz div num_procs + 1))
                 else (sz div num_procs,
                       (sz mod num_procs) * (sz div num_procs + 1)
                         + (rank - sz mod num_procs) * (sz div num_procs)))"
    by (simp add: row_range_def Let_def)
  have b: "{rank. 0 \<le> rank \<and> rank < num_procs
               \<and> fst (row_range sz rank num_procs) = sz div num_procs + 1}
         = {0..<sz mod num_procs}"
    using lt by (auto simp: row_range_rows split: if_splits)
  have c: "{rank. 0 \<le> rank \<and> rank < num_procs
               \<and> fst (row_range sz rank num_procs) = sz div num_procs}
         = {sz mod num_procs..<num_procs}"
    using ge by (auto simp: row_range_rows split: if_splits)
  have d: "map (\<lambda>rank. row_range 5 rank 3) [0, 1, 2] = [(2, 0), (2, 2), (1, 4)]"
    by (simp add: row_range_def)
  from a b c d show ?thesis by blast
qed

theorem remainder_distribution_witness:
  "(0::int) \<le> 7 \<and> (1::int) \<le> 4
   \<and> row_range 7 2 4 = (2, 4) \<and> row_range 7 3 4 = (1, 6)
   \<and> {rank. 0 \<le> rank \<and> rank < 4 \<and> fst (row_range 7 rank 4) = 2} = {0..<3}"
  using remainder_distribution [of 7 4] by simp

section \<open>Runs of the process group\<close>

subsection \<open>Steps of the scheduler\<close>

lemma steps_trans:
  assumes "steps a es b" and "steps b es' c"
  shows "steps a (es @ es') c"
  using assms by (induction rule: steps.induct) (auto intro: steps.intros)

lemma first_delivery_map_filter:
  "first_delivery w js =
     (case List.map_filter (try_deliver w) js of [] \<Rightarrow> None | x # _ \<Rightarrow> Some x)"
  by (induction js) (auto simp: List.map_filter_simps split: option.splits)

lemma world_step_enabled:
  "world_step w = (case enabled w of [] \<Rightarrow> None | x # _ \<Rightarrow> Some x)"
  by (cases "bcast_ready w") (simp_all add: world_step_def enabled_def first_delivery_map_filter)

lemma run_stuck: "world_step w = None \<Longrightarrow> run fuel w = ([], w)"
  by (cases fuel) simp_all

lemma steps_run:
  assumes "steps w es w'" and "world_step w' = None" and "length es \<le> fuel"
  shows "run fuel w = (es, w')"
  using assms
proof (induction arbitrary: fuel rule: steps.induct)
  case (steps_refl w)
  then show ?case by (simp add: run_stuck)
next
  case (steps_step w e w' es w'')
  then obtain k where k: "fuel = Suc k" "length es \<le> k" by (cases fuel) auto
  from steps_step.hyps(1) have "world_step w = Some (e, w')"
    by (simp add: world_step_enabled)
  with steps_step k show ?case by simp
qed

text \<open>
  Where every step was the only one possible, every complete execution is the same.
\<close>

lemma steps_execs:
  assumes "steps w es w'" and "enabled w' = []"
  shows "execs w es w'"
  using assms by (induction rule: steps.induct) (auto intro: execs.intros)

lemma execs_unique:
  assumes "steps w es w'" and "enabled w' = []" and "execs w es2 w2"
  shows "es2 = es \<and> w2 = w'"
  using assms
proof (induction arbitrary: es2 rule: steps.induct)
  case (steps_refl w)
  from steps_refl(2) steps_refl(1) show ?case by (cases rule: execs.cases) simp_all
next
  case (steps_step w e w' es w'')
  from steps_step.prems(2) show ?case
  proof (cases rule: execs.cases)
    case execs_done
    with steps_step.hyps(1) show ?thesis by simp
  next
    case (execs_step e2 v es3)
    with steps_step.hyps(1) have "e2 = e" "v = w'" by simp_all
    with execs_step steps_step.IH [OF steps_step.prems(1), of es3] show ?thesis by simp
  qed
qed

lemma map_filter_none:
  assumes "\<forall>x \<in> set xs. f x = None"
  shows "List.map_filter f xs = []"
  using assms by (induction xs) (simp_all add: List.map_filter_simps)

lemma map_filter_only:
  assumes "\<forall>x \<in> set xs. f x = None" and "\<forall>x \<in> set ys. f x = None" and "f i = Some y"
  shows "List.map_filter f (xs @ i # ys) = [y]"
proof -
  have "filter (\<lambda>x. f x \<noteq> None) xs = []" "filter (\<lambda>x. f x \<noteq> None) ys = []"
    using assms(1,2) by (simp_all add: filter_empty_conv)
  then show ?thesis using assms(3) by (simp add: List.map_filter_def)
qed

lemma bcast_ready_Send [simp]: "bcast_ready (Send M d t k # ws) = None"
  by (simp add: bcast_ready_def)

lemma bcast_ready_Recv [simp]: "bcast_ready (Recv s t f # ws) = None"
  by (simp add: bcast_ready_def)

lemma bcast_ready_Return [simp]: "bcast_ready (Return x # ws) = None"
  by (simp add: bcast_ready_def)

lemma bcast_ready_Raise [simp]: "bcast_ready (Raise e # ws) = None"
  by (simp add: bcast_ready_def)

lemma upt_split:
  assumes "i < n"
  shows "[0..<n] = [0..<i] @ i # [Suc i..<n]"
  using assms by (metis le_add1 less_imp_add_positive upt_add_eq_append upt_conv_Cons zero_le)

text \<open>The root sends to a rank that is waiting for it; no other rank can send to it.\<close>

lemma step_root_send:
  assumes "1 \<le> p" and "nat p \<le> length ws" and "ws ! (nat p - 1) = Recv 0 t f"
    and "\<forall>q \<in> set ws. to_root q"
  shows "enabled (Send M p t k # ws) = [(Transfer 0 p t, k # ws[nat p - 1 := f M])]"
proof -
  let ?w = "Send M p t k # ws"
  have nth: "?w ! nat p = Recv 0 t f"
    using assms by (cases "nat p") auto
  have upd: "?w[0 := k, nat p := receive M (?w ! nat p)] = k # ws[nat p - 1 := f M]"
    using assms nth by (cases "nat p") auto
  have root: "try_deliver ?w 0 = Some (Transfer 0 p t, k # ws[nat p - 1 := f M])"
    unfolding try_deliver_def using assms nth upd by simp
  have others: "\<forall>i \<in> set [Suc 0..<length ?w]. try_deliver ?w i = None"
  proof
    fix i assume "i \<in> set [Suc 0..<length ?w]"
    then have "Suc 0 \<le> i \<and> i < length ?w" by (simp only: set_upt atLeastLessThan_iff)
    then obtain j where i: "i = Suc j" "j < length ws" by (cases i) auto
    then have "to_root (ws ! j)" using assms(4) by simp
    then show "try_deliver ?w i = None"
      using i by (cases "ws ! j") (simp_all add: try_deliver_def)
  qed
  have "[0..<length ?w] = [] @ 0 # [Suc 0..<length ?w]"
    by (simp add: upt_rec)
  then have "List.map_filter (try_deliver ?w) [0..<length ?w]
               = [(Transfer 0 p t, k # ws[nat p - 1 := f M])]"
    using map_filter_only [of "[]" "try_deliver ?w", OF _ others root] by simp
  then show ?thesis by (simp add: enabled_def)
qed

text \<open>The root receives from the rank it names; no other rank can send to it.\<close>

lemma step_root_recv:
  assumes "1 \<le> p" and "nat p \<le> length ws" and "ws ! (nat p - 1) = Send M 0 t k"
    and "\<forall>q \<in> set ws. to_root q"
  shows "enabled (Recv p t f # ws) = [(Transfer p 0 t, f M # ws[nat p - 1 := k])]"
proof -
  let ?w = "Recv p t f # ws"
  have p: "0 < nat p" "nat p < length ?w" "int (nat p) = p" using assms by auto
  have nth: "?w ! nat p = Send M 0 t k"
    using assms by (cases "nat p") auto
  have upd: "?w[nat p := k, 0 := receive M (?w ! 0)] = f M # ws[nat p - 1 := k]"
    using assms by (cases "nat p") auto
  have sender: "try_deliver ?w (nat p) = Some (Transfer p 0 t, f M # ws[nat p - 1 := k])"
    unfolding try_deliver_def using p nth upd by simp
  have other: "try_deliver ?w i = None" if "i < length ?w" "i \<noteq> nat p" for i
  proof (cases i)
    case 0
    then show ?thesis by (simp add: try_deliver_def)
  next
    case (Suc j)
    with that have j: "j < length ws" by simp
    then have "to_root (ws ! j)" using assms(4) by simp
    moreover have "p \<noteq> int (Suc j)" using that(2) Suc by auto
    ultimately show ?thesis
      using Suc by (cases "ws ! j") (simp_all add: try_deliver_def)
  qed
  have before: "\<forall>i \<in> set [0..<nat p]. try_deliver ?w i = None"
    using other p(2) by (simp only: set_upt atLeastLessThan_iff) auto
  have after: "\<forall>i \<in> set [Suc (nat p)..<length ?w]. try_deliver ?w i = None"
    using other by (simp only: set_upt atLeastLessThan_iff) auto
  have "List.map_filter (try_deliver ?w) ([0..<nat p] @ nat p # [Suc (nat p)..<length ?w])
          = [(Transfer p 0 t, f M # ws[nat p - 1 := k])]"
    using before after sender by (rule map_filter_only)
  then have "List.map_filter (try_deliver ?w) [0..<length ?w]
               = [(Transfer p 0 t, f M # ws[nat p - 1 := k])]"
    using upt_split [OF p(2)] by simp
  then show ?thesis by (simp add: enabled_def)
qed

text \<open>A world in which every rank has returned is stuck.\<close>

lemma enabled_all_returned:
  assumes "\<forall>p \<in> set w. returned p"
  shows "enabled w = []"
proof -
  have "try_deliver w i = None" if "i < length w" for i
  proof -
    from that assms have "returned (w ! i)" by simp
    then show ?thesis by (cases "w ! i") (simp_all add: try_deliver_def)
  qed
  then have "List.map_filter (try_deliver w) [0..<length w] = []"
    by (intro map_filter_none) simp
  moreover have "bcast_ready w = None"
  proof (cases w)
    case Nil
    then show ?thesis by (simp add: bcast_ready_def)
  next
    case (Cons p ws)
    with assms have "returned p" by simp
    then show ?thesis using Cons by (cases p) simp_all
  qed
  ultimately show ?thesis by (simp add: enabled_def)
qed

lemma step_all_returned:
  assumes "\<forall>p \<in> set w. returned p"
  shows "world_step w = None"
  by (simp add: world_step_enabled enabled_all_returned [OF assms])

subsection \<open>The two loops of the root\<close>

lemma length_ranks [simp]: "length [1..m] = nat m"
  by simp

lemma nth_ranks:
  assumes "1 \<le> p" and "p \<le> m"
  shows "map W [1..m] ! (nat p - 1) = W p"
proof -
  have "nat p - 1 < length [1..m]" using assms by simp
  moreover have "[1..m] ! (nat p - 1) = 1 + int (nat p - 1)"
    using assms by (intro nth_upto) simp
  ultimately show ?thesis using assms by simp
qed

lemma update_ranks:
  assumes "1 \<le> p" and "p \<le> m"
  shows "(map W [1..m])[nat p - 1 := x] = map (W(p := x)) [1..m]"
proof (rule nth_equalityI)
  show "length ((map W [1..m])[nat p - 1 := x]) = length (map (W(p := x)) [1..m])" by simp
next
  fix i assume "i < length ((map W [1..m])[nat p - 1 := x])"
  then have i: "i < nat m" by simp
  then have nth: "[1..m] ! i = 1 + int i" by (intro nth_upto) simp
  show "(map W [1..m])[nat p - 1 := x] ! i = map (W(p := x)) [1..m] ! i"
  proof (cases "i = nat p - 1")
    case True
    then have "1 + int i = p" using assms by simp
    then show ?thesis using i nth True by simp
  next
    case False
    then have "1 + int i \<noteq> p" using assms by auto
    then show ?thesis using i nth False by simp
  qed
qed

lemma scatter_sends_Cons:
  "scatter_sends A (sz div n) (sz mod n) (p # ps) K =
     (if 0 < fst (row_range sz p n)
      then Send (py_slice A (snd (row_range sz p n))
                   (snd (row_range sz p n) + fst (row_range sz p n))) p p
             (scatter_sends A (sz div n) (sz mod n) ps K)
      else scatter_sends A (sz div n) (sz mod n) ps K)"
  by (simp add: row_range_def Let_def)

lemma gather_recvs_Cons:
  "gather_recvs sz n (p # ps) C =
     (if 0 < fst (row_range sz p n)
      then Recv p (p + 100)
             (\<lambda>received_data.
                case set_rows C (snd (row_range sz p n))
                       (snd (row_range sz p n) + fst (row_range sz p n)) received_data of
                  Inl e \<Rightarrow> Raise e
                | Inr C' \<Rightarrow> gather_recvs sz n ps C')
      else gather_recvs sz n ps C)"
  by (simp add: row_range_def Let_def)

text \<open>
  The scatter phase: the root is in its loop at rank \<open>p\<close>, every later rank with rows
  waits for its block.
\<close>

lemma scatter_phase:
  fixes W :: "int \<Rightarrow> ('a, 'r) prog"
  assumes "1 \<le> p"
    and "\<forall>r. p \<le> r \<and> r \<le> m \<and> 0 < fst (row_range sz r n) \<longrightarrow> W r = Recv 0 r (F r)"
    and "\<forall>r. to_root (W r)" and "\<forall>r x. to_root (F r x)"
  shows "steps (scatter_sends A (sz div n) (sz mod n) [p..m] K # map W [1..m])
           (map (\<lambda>r. Transfer 0 r r) (filter (\<lambda>r. 0 < fst (row_range sz r n)) [p..m]))
           (K # map (\<lambda>r. if p \<le> r \<and> 0 < fst (row_range sz r n)
                          then F r (py_slice A (snd (row_range sz r n))
                                      (snd (row_range sz r n) + fst (row_range sz r n)))
                          else W r) [1..m])"
  using assms
proof (induction "nat (m + 1 - p)" arbitrary: p W)
  case 0
  then have "m < p" by simp
  then have empty: "[p..m] = []" by simp
  have same: "map (\<lambda>r. if p \<le> r \<and> 0 < fst (row_range sz r n)
                          then F r (py_slice A (snd (row_range sz r n))
                                      (snd (row_range sz r n) + fst (row_range sz r n)))
                          else W r) [1..m] = map W [1..m]"
    using \<open>m < p\<close> by (intro map_cong) auto
  show ?case unfolding empty same by (simp add: steps_refl)
next
  case (Suc k)
  let ?rows = "\<lambda>r. fst (row_range sz r n)"
  let ?blk = "\<lambda>r. py_slice A (snd (row_range sz r n)) (snd (row_range sz r n) + fst (row_range sz r n))"
  let ?loop = "\<lambda>ps. scatter_sends A (sz div n) (sz mod n) ps K"
  from Suc.hyps(2) have le: "p \<le> m" by simp
  then have upto: "[p..m] = p # [p + 1..m]" by (rule upto_rec1)
  have k: "k = nat (m + 1 - (p + 1))" using Suc.hyps(2) by simp
  have p1: "1 \<le> p + 1" using Suc.prems(1) by simp
  show ?case
  proof (cases "0 < ?rows p")
    case False
    have wait: "\<forall>r. p + 1 \<le> r \<and> r \<le> m \<and> 0 < ?rows r \<longrightarrow> W r = Recv 0 r (F r)"
      using Suc.prems(2) by simp
    have same: "map (\<lambda>r. if p + 1 \<le> r \<and> 0 < ?rows r then F r (?blk r) else W r) [1..m]
              = map (\<lambda>r. if p \<le> r \<and> 0 < ?rows r then F r (?blk r) else W r) [1..m]"
    proof (intro map_cong refl)
      fix r
      have "p + 1 \<le> r \<or> r = p \<or> r < p" by linarith
      then show "(if p + 1 \<le> r \<and> 0 < ?rows r then F r (?blk r) else W r)
               = (if p \<le> r \<and> 0 < ?rows r then F r (?blk r) else W r)"
        using False by auto
    qed
    have loop: "?loop [p..m] = ?loop [p + 1..m]"
      unfolding upto scatter_sends_Cons using False by simp
    have evs: "filter (\<lambda>r. 0 < ?rows r) [p..m] = filter (\<lambda>r. 0 < ?rows r) [p + 1..m]"
      unfolding upto using False by simp
    from Suc.hyps(1) [OF k p1 wait Suc.prems(3,4)] show ?thesis
      unfolding loop evs same .
  next
    case True
    let ?W' = "W(p := F p (?blk p))"
    have wp: "W p = Recv 0 p (F p)" using Suc.prems(2) le True by simp
    have "enabled (Send (?blk p) p p (?loop [p + 1..m]) # map W [1..m])
            = [(Transfer 0 p p, ?loop [p + 1..m] # (map W [1..m])[nat p - 1 := F p (?blk p)])]"
      using Suc.prems(1,3) le wp by (intro step_root_send) (simp_all add: nth_ranks)
    moreover have "?loop [p..m] = Send (?blk p) p p (?loop [p + 1..m])"
      unfolding upto scatter_sends_Cons using True by simp
    moreover have "(map W [1..m])[nat p - 1 := F p (?blk p)] = map ?W' [1..m]"
      using Suc.prems(1) le by (rule update_ranks)
    ultimately have first: "enabled (?loop [p..m] # map W [1..m])
            = [(Transfer 0 p p, ?loop [p + 1..m] # map ?W' [1..m])]"
      by simp
    have quiet: "\<forall>r. to_root (?W' r)" using Suc.prems(3,4) by simp
    have wait: "\<forall>r. p + 1 \<le> r \<and> r \<le> m \<and> 0 < ?rows r \<longrightarrow> ?W' r = Recv 0 r (F r)"
      using Suc.prems(2) by simp
    have same: "map (\<lambda>r. if p + 1 \<le> r \<and> 0 < ?rows r then F r (?blk r) else ?W' r) [1..m]
              = map (\<lambda>r. if p \<le> r \<and> 0 < ?rows r then F r (?blk r) else W r) [1..m]"
    proof (intro map_cong refl)
      fix r
      have "p + 1 \<le> r \<or> r = p \<or> r < p" by linarith
      then show "(if p + 1 \<le> r \<and> 0 < ?rows r then F r (?blk r) else ?W' r)
               = (if p \<le> r \<and> 0 < ?rows r then F r (?blk r) else W r)"
        using True by auto
    qed
    from Suc.hyps(1) [OF k p1 wait quiet Suc.prems(4)] have
      "steps (?loop [p + 1..m] # map ?W' [1..m])
         (map (\<lambda>r. Transfer 0 r r) (filter (\<lambda>r. 0 < ?rows r) [p + 1..m]))
         (K # map (\<lambda>r. if p \<le> r \<and> 0 < ?rows r then F r (?blk r) else W r) [1..m])"
      by (simp only: same)
    from steps_step [OF first this] have
      "steps (?loop [p..m] # map W [1..m])
         (Transfer 0 p p # map (\<lambda>r. Transfer 0 r r) (filter (\<lambda>r. 0 < ?rows r) [p + 1..m]))
         (K # map (\<lambda>r. if p \<le> r \<and> 0 < ?rows r then F r (?blk r) else W r) [1..m])" .
    moreover have "map (\<lambda>r. Transfer 0 r r) (filter (\<lambda>r. 0 < ?rows r) [p..m])
        = Transfer 0 p p # map (\<lambda>r. Transfer 0 r r) (filter (\<lambda>r. 0 < ?rows r) [p + 1..m])"
      unfolding upto using True by simp
    ultimately show ?thesis by simp
  qed
qed

text \<open>
  The gather phase: the root is in its loop at rank \<open>p\<close>, every earlier rank has
  returned, every later rank with rows is sending its block.
\<close>

lemma gather_phase:
  fixes Cs :: "int \<Rightarrow> 'a matrix" and D :: "int \<Rightarrow> 'a matrix"
  assumes "1 \<le> p"
    and "\<forall>r. p \<le> r \<and> r \<le> m \<and> 0 < fst (row_range sz r n) \<longrightarrow>
           set_rows (Cs r) (snd (row_range sz r n))
             (snd (row_range sz r n) + fst (row_range sz r n)) (D r) = Inr (Cs (r + 1))"
    and "\<forall>r. p \<le> r \<and> r \<le> m \<and> \<not> 0 < fst (row_range sz r n) \<longrightarrow> Cs (r + 1) = Cs r"
  shows "steps
           (gather_recvs sz n [p..m] (Cs p)
              # map (\<lambda>r. if p \<le> r \<and> 0 < fst (row_range sz r n)
                         then Send (D r) 0 (r + 100) (Return None) else Return None) [1..m])
           (map (\<lambda>r. Transfer r 0 (r + 100)) (filter (\<lambda>r. 0 < fst (row_range sz r n)) [p..m]))
           (Return (Some (Cs (max p (m + 1)))) # map (\<lambda>r. Return None) [1..m])"
  using assms
proof (induction "nat (m + 1 - p)" arbitrary: p)
  case 0
  then have "m < p" by simp
  then have empty: "[p..m] = []" and final: "max p (m + 1) = p" by simp_all
  have same: "map (\<lambda>r. if p \<le> r \<and> 0 < fst (row_range sz r n)
                         then Send (D r) 0 (r + 100) (Return None) else Return None) [1..m]
            = map (\<lambda>r. Return None) [1..m]"
    using \<open>m < p\<close> by (intro map_cong) auto
  show ?case unfolding empty same final by (simp add: steps_refl)
next
  case (Suc k)
  let ?rows = "\<lambda>r. fst (row_range sz r n)"
  let ?start = "\<lambda>r. snd (row_range sz r n)"
  let ?W = "\<lambda>q r. if q \<le> r \<and> 0 < ?rows r
                     then Send (D r) 0 (r + 100) (Return None) else Return None"
  let ?evs = "\<lambda>ps. map (\<lambda>r. Transfer r 0 (r + 100)) (filter (\<lambda>r. 0 < ?rows r) ps)"
  let ?final = "Return (Some (Cs (max p (m + 1)))) # map (\<lambda>r. Return None) [1..m]"
  from Suc.hyps(2) have le: "p \<le> m" by simp
  then have upto: "[p..m] = p # [p + 1..m]" by (rule upto_rec1)
  have k: "k = nat (m + 1 - (p + 1))" using Suc.hyps(2) by simp
  have p1: "1 \<le> p + 1" using Suc.prems(1) by simp
  have final: "max (p + 1) (m + 1) = max p (m + 1)" using le by simp
  have a2: "\<forall>r. p + 1 \<le> r \<and> r \<le> m \<and> 0 < ?rows r \<longrightarrow>
           set_rows (Cs r) (?start r) (?start r + ?rows r) (D r) = Inr (Cs (r + 1))"
    using Suc.prems(2) by simp
  have a3: "\<forall>r. p + 1 \<le> r \<and> r \<le> m \<and> \<not> 0 < ?rows r \<longrightarrow> Cs (r + 1) = Cs r"
    using Suc.prems(3) by simp
  have IH: "steps (gather_recvs sz n [p + 1..m] (Cs (p + 1)) # map (?W (p + 1)) [1..m])
              (?evs [p + 1..m]) ?final"
    using Suc.hyps(1) [OF k p1 a2 a3] unfolding final .
  show ?case
  proof (cases "0 < ?rows p")
    case False
    have same: "map (?W (p + 1)) [1..m] = map (?W p) [1..m]"
    proof (intro map_cong refl)
      fix r
      have "p + 1 \<le> r \<or> r = p \<or> r < p" by linarith
      then show "?W (p + 1) r = ?W p r" using False by auto
    qed
    have acc: "Cs (p + 1) = Cs p" using Suc.prems(3) le False by simp
    have loop: "gather_recvs sz n [p..m] (Cs p) = gather_recvs sz n [p + 1..m] (Cs p)"
      unfolding upto gather_recvs_Cons using False by simp
    have evs: "?evs [p..m] = ?evs [p + 1..m]"
      unfolding upto using False by simp
    from IH show ?thesis unfolding loop evs same acc .
  next
    case True
    let ?f = "\<lambda>received_data.
                case set_rows (Cs p) (?start p) (?start p + ?rows p) received_data of
                  Inl e \<Rightarrow> Raise e
                | Inr C' \<Rightarrow> gather_recvs sz n [p + 1..m] C'"
    have loop: "gather_recvs sz n [p..m] (Cs p) = Recv p (p + 100) ?f"
      unfolding upto gather_recvs_Cons using True by simp
    have acc: "?f (D p) = gather_recvs sz n [p + 1..m] (Cs (p + 1))"
      using Suc.prems(2) le True by simp
    have sender: "map (?W p) [1..m] ! (nat p - 1) = Send (D p) 0 (p + 100) (Return None)"
      using Suc.prems(1) le True by (simp add: nth_ranks)
    have quiet: "\<forall>q \<in> set (map (?W p) [1..m]). to_root q" by auto
    have upd: "(map (?W p) [1..m])[nat p - 1 := Return None] = map (?W (p + 1)) [1..m]"
    proof -
      have "(map (?W p) [1..m])[nat p - 1 := Return None] = map ((?W p)(p := Return None)) [1..m]"
        using Suc.prems(1) le by (rule update_ranks)
      also have "\<dots> = map (?W (p + 1)) [1..m]"
      proof (intro map_cong refl)
        fix r
        have "p + 1 \<le> r \<or> r = p \<or> r < p" by linarith
        then show "((?W p)(p := Return None)) r = ?W (p + 1) r" by auto
      qed
      finally show ?thesis .
    qed
    have "enabled (Recv p (p + 100) ?f # map (?W p) [1..m])
            = [(Transfer p 0 (p + 100),
                ?f (D p) # (map (?W p) [1..m])[nat p - 1 := Return None])]"
      using Suc.prems(1) le sender quiet by (intro step_root_recv) simp_all
    then have first: "enabled (gather_recvs sz n [p..m] (Cs p) # map (?W p) [1..m])
            = [(Transfer p 0 (p + 100),
                gather_recvs sz n [p + 1..m] (Cs (p + 1)) # map (?W (p + 1)) [1..m])]"
      unfolding loop acc upd .
    have evs: "?evs [p..m] = Transfer p 0 (p + 100) # ?evs [p + 1..m]"
      unfolding upto using True by simp
    from steps_step [OF first IH] show ?thesis unfolding evs .
  qed
qed

subsection \<open>Blocks of rows\<close>

lemma row_range_bounds:
  assumes "0 \<le> sz" and "0 < n" and "0 \<le> r" and "r < n"
  shows "0 \<le> snd (row_range sz r n)"
    and "snd (row_range sz r n) + fst (row_range sz r n) \<le> sz"
proof -
  have "snd (row_range sz 0 n) \<le> snd (row_range sz r n)"
    using assms by (intro row_range_start_mono) auto
  then show "0 \<le> snd (row_range sz r n)"
    using row_range_first [OF assms(2), of sz] by simp
  have "snd (row_range sz (r + 1) n) \<le> snd (row_range sz n n)"
    using assms by (intro row_range_start_mono) auto
  then show "snd (row_range sz r n) + fst (row_range sz r n) \<le> sz"
    using row_range_end [OF assms(2), of sz] by (simp add: row_range_next)
qed

lemma py_index_in_range:
  assumes "0 \<le> a" and "nat a \<le> len"
  shows "py_index a len = nat a"
  using assms by (simp add: py_index_def)

lemma py_slice_block:
  assumes "0 \<le> s" and "0 \<le> k" and "nat (s + k) \<le> length xs"
  shows "py_slice xs s (s + k) = take (nat k) (drop (nat s) xs)"
proof -
  have "py_index s (length xs) = nat s" using assms by (intro py_index_in_range) auto
  moreover have "py_index (s + k) (length xs) = nat (s + k)"
    using assms by (intro py_index_in_range) auto
  moreover have "nat (s + k) - nat s = nat k" using assms by simp
  ultimately show ?thesis by (simp add: py_slice_def)
qed

lemma set_rows_block:
  assumes "0 \<le> s" and "0 \<le> k" and "nat (s + k) \<le> length C" and "length data = nat k"
  shows "set_rows C s (s + k) data = Inr (take (nat s) C @ data @ drop (nat (s + k)) C)"
proof -
  have "py_index s (length C) = nat s" using assms by (intro py_index_in_range) auto
  moreover have "py_index (s + k) (length C) = nat (s + k)"
    using assms by (intro py_index_in_range) auto
  moreover have "nat (s + k) - nat s = nat k" and "nat s + nat k = nat (s + k)"
    using assms by simp_all
  ultimately show ?thesis using assms(4) by (simp add: set_rows_def)
qed

text \<open>Filling the next block of product rows into the accumulator of the root.\<close>

lemma set_rows_accumulate:
  assumes "0 \<le> s" and "0 \<le> k" and "nat (s + k) \<le> length P" and "length Z = length P"
  shows "set_rows (take (nat s) P @ drop (nat s) Z) s (s + k) (take (nat k) (drop (nat s) P))
           = Inr (take (nat (s + k)) P @ drop (nat (s + k)) Z)"
proof -
  let ?C = "take (nat s) P @ drop (nat s) Z"
  have sk: "nat (s + k) = nat s + nat k" using assms by (simp add: nat_add_distrib)
  have le: "nat s \<le> length P" using assms sk by simp
  have len: "length ?C = length P" using assms le by simp
  have data: "length (take (nat k) (drop (nat s) P)) = nat k" using assms sk by simp
  have t: "take (nat s) ?C = take (nat s) P" using le by simp
  have d: "drop (nat (s + k)) ?C = drop (nat (s + k)) Z"
    using le sk by (simp add: min_absorb2 add.commute)
  have j: "take (nat s) P @ take (nat k) (drop (nat s) P) = take (nat (s + k)) P"
    unfolding sk by (simp add: take_add)
  have "set_rows ?C s (s + k) (take (nat k) (drop (nat s) P))
          = Inr (take (nat s) ?C @ take (nat k) (drop (nat s) P) @ drop (nat (s + k)) ?C)"
    using assms(1,2) len assms(3) data by (intro set_rows_block) simp_all
  also have "\<dots> = Inr ((take (nat s) P @ take (nat k) (drop (nat s) P)) @ drop (nat (s + k)) Z)"
    unfolding t d by simp
  finally show ?thesis unfolding j .
qed

lemma np_dot_rows:
  assumes "\<forall>row \<in> set A. length row = length B"
  shows "np_dot (take k (drop s A)) B = Inr (take k (drop s (map (\<lambda>row. dot_row row B) A)))"
proof -
  have "set (take k (drop s A)) \<subseteq> set A"
    by (meson set_take_subset set_drop_subset subset_trans)
  then have "\<forall>row \<in> set (take k (drop s A)). length row = length B" using assms by blast
  then show ?thesis by (simp add: np_dot_def take_map drop_map)
qed

lemma np_random_rand_shape:
  assumes "np_random_rand g rows cols = Inr (M, g')"
  shows "length M = nat rows" and "\<forall>row \<in> set M. length row = nat cols"
  using assms by (auto simp: np_random_rand_def split: if_splits)

lemma initialize_matrices_root:
  assumes "0 \<le> sz"
  shows "\<exists>A B. initialize_matrices mt g sz 0 = Inr (Some A, Some B)"
  using assms by (simp add: initialize_matrices_def np_random_rand_def Let_def)

lemma initialize_matrices_shape:
  assumes "initialize_matrices mt g sz 0 = Inr (Some A, Some B)"
  shows "length A = nat sz" and "\<forall>row \<in> set A. length row = nat sz"
    and "length B = nat sz" and "\<forall>row \<in> set B. length row = nat sz"
  using assms
  by (auto simp: initialize_matrices_def Let_def
           split: sum.splits prod.splits dest: np_random_rand_shape)

subsection \<open>The programs of the ranks\<close>

lemma bcast_ready_all:
  assumes "w \<noteq> []" and "list_all (at_bcast 0) w"
  shows "bcast_ready w = Some 0"
proof (cases w)
  case Nil
  with assms(1) show ?thesis by simp
next
  case (Cons p ws)
  with assms(2) have "at_bcast 0 p" by simp
  then obtain v k where "p = Bcast v 0 k" by (cases p) simp_all
  with Cons assms(2) show ?thesis by (simp add: bcast_ready_def)
qed

lemma step_broadcast:
  assumes "w \<noteq> []" and "list_all (at_bcast 0) w"
  shows "enabled w = [(Broadcast 0, map (after_bcast (bcast_value (w ! 0))) w)]"
proof -
  have "try_deliver w i = None" if "i < length w" for i
  proof -
    from that assms(2) have "at_bcast 0 (w ! i)" by (simp add: list_all_length)
    then show ?thesis by (cases "w ! i") (simp_all add: try_deliver_def)
  qed
  then have "List.map_filter (try_deliver w) [0..<length w] = []"
    by (intro map_filter_none) simp
  then show ?thesis using bcast_ready_all [OF assms] by (simp add: enabled_def)
qed

text \<open>The program of a rank other than the root.\<close>

lemma worker_program:
  assumes "0 \<le> sz" and "0 < n" and "r \<noteq> 0"
  shows "mpi_matrix_multiply mt g sz r n =
           Bcast None 0 (\<lambda>B.
             if 0 < fst (row_range sz r n)
             then Recv 0 r (\<lambda>local_A.
                    case (case B of None \<Rightarrow> Inl TypeError | Some B' \<Rightarrow> np_dot local_A B') of
                      Inl e \<Rightarrow> Raise e
                    | Inr local_C \<Rightarrow> Send local_C 0 (r + 100) (Return None))
             else Return None)"
proof -
  have rows: "0 \<le> fst (row_range sz r n)"
    using assms by (intro row_range_rows_nonneg) auto
  have n0: "n \<noteq> 0" using assms(2) by simp
  show ?thesis
    unfolding mpi_matrix_multiply_def initialize_matrices_def distribute_matrix_rows_def
    using rows n0 assms(1,3)
    by (simp add: np_zeros_def Let_def case_prod_beta cong: if_cong sum.case_cong option.case_cong)
qed

text \<open>The program of the root, once the broadcast has returned \<open>B\<close>.\<close>

lemma root_program:
  fixes A B :: "('a::{zero,plus,times}) matrix"
  assumes "0 \<le> sz" and "0 < n"
    and init: "initialize_matrices mt g sz 0 = Inr (Some A, Some B)"
  shows "\<exists>K. mpi_matrix_multiply mt g sz 0 n = Bcast (Some B) 0 K
           \<and> K (Some B) =
               scatter_sends A (sz div n) (sz mod n) [1..n - 1]
                 (gather_recvs sz n [1..n - 1]
                    (take (nat (snd (row_range sz 1 n))) (map (\<lambda>row. dot_row row B) A)
                       @ drop (nat (snd (row_range sz 1 n)))
                           (replicate (nat sz) (replicate (nat sz) 0))))"
proof -
  let ?P = "map (\<lambda>row. dot_row row B) A"
  let ?Z = "replicate (nat sz) (replicate (nat sz) (0::'a))"
  let ?rows = "fst (row_range sz 0 n)"
  let ?cont = "\<lambda>(local_A, local_rows, start_row).
              case np_zeros local_rows sz of
                Inl e \<Rightarrow> Raise e
              | Inr zeros_C \<Rightarrow>
                  (case (if local_rows > 0
                         then (case Some B of None \<Rightarrow> Inl TypeError | Some B' \<Rightarrow> np_dot local_A B')
                         else Inr zeros_C) of
                     Inl e \<Rightarrow> Raise e
                   | Inr local_C \<Rightarrow>
                       if (0::int) = 0 then
                         (case np_zeros sz sz of
                            Inl e \<Rightarrow> Raise e
                          | Inr C0 \<Rightarrow>
                              (case set_rows C0 start_row (start_row + local_rows) local_C of
                                 Inl e \<Rightarrow> Raise e
                               | Inr C \<Rightarrow> gather_recvs sz n [1..n - 1] C))
                       else if local_rows > 0
                         then Send local_C 0 (0 + 100) (Return None)
                         else Return None)"
  have shape: "length A = nat sz" "\<forall>row \<in> set A. length row = length B"
    using initialize_matrices_shape [OF init] by simp_all
  have start0: "snd (row_range sz 0 n) = 0" by (rule row_range_first [OF assms(2)])
  have rows0: "0 \<le> ?rows" using assms(1,2) by (rule row_range_rows_nonneg)
  have "snd (row_range sz 0 n) + ?rows \<le> sz"
    using assms(1,2) by (intro row_range_bounds) simp_all
  then have fit: "nat (0 + ?rows) \<le> length A" "nat (0 + ?rows) \<le> length ?P"
    using start0 shape(1) by simp_all
  have start1: "snd (row_range sz 1 n) = ?rows"
    using row_range_next [of sz 0 n] start0 by simp
  have "py_slice A 0 (0 + ?rows) = take (nat ?rows) (drop (nat 0) A)"
    using rows0 fit(1) by (intro py_slice_block) simp_all
  then have blk: "py_slice A 0 ?rows = take (nat ?rows) A" by simp
  have "np_dot (take (nat ?rows) (drop 0 A)) B = Inr (take (nat ?rows) (drop 0 ?P))"
    using shape(2) by (rule np_dot_rows)
  then have dot: "np_dot (take (nat ?rows) A) B = Inr (take (nat ?rows) ?P)" by simp
  have "set_rows (take (nat 0) ?P @ drop (nat 0) ?Z) 0 (0 + ?rows) (take (nat ?rows) (drop (nat 0) ?P))
          = Inr (take (nat (0 + ?rows)) ?P @ drop (nat (0 + ?rows)) ?Z)"
    using rows0 fit(2) shape(1) by (intro set_rows_accumulate) simp_all
  then have own: "set_rows ?Z 0 ?rows (take (nat ?rows) ?P)
          = Inr (take (nat ?rows) ?P @ drop (nat ?rows) ?Z)"
    by simp
  have zeros: "np_zeros ?rows sz = Inr (replicate (nat ?rows) (replicate (nat sz) (0::'a)))"
    "np_zeros sz sz = Inr ?Z"
    using rows0 assms(1) by (simp_all add: np_zeros_def)
  have cont: "?cont (py_slice A 0 (0 + ?rows), ?rows, 0)
              = gather_recvs sz n [1..n - 1] (take (nat ?rows) ?P @ drop (nat ?rows) ?Z)"
  proof (cases "0 < ?rows")
    case True
    then show ?thesis using blk dot own zeros by simp
  next
    case False
    with rows0 have "?rows = 0" by simp
    then show ?thesis using own zeros by simp
  qed
  have n0: "n \<noteq> 0" using assms(2) by simp
  have "distribute_matrix_rows (Some A) sz 0 n ?cont
          = scatter_sends A (sz div n) (sz mod n) [1..n - 1]
              (?cont (py_slice A 0 (0 + ?rows), ?rows, 0))"
    using n0 zeros(1) start0 by (simp add: distribute_matrix_rows_def Let_def case_prod_beta)
  then have "distribute_matrix_rows (Some A) sz 0 n ?cont
          = scatter_sends A (sz div n) (sz mod n) [1..n - 1]
              (gather_recvs sz n [1..n - 1] (take (nat ?rows) ?P @ drop (nat ?rows) ?Z))"
    unfolding cont .
  moreover have "mpi_matrix_multiply mt g sz 0 n
          = Bcast (Some B) 0 (\<lambda>B'. distribute_matrix_rows (Some A) sz 0 n
              (\<lambda>(local_A, local_rows, start_row).
              case np_zeros local_rows sz of
                Inl e \<Rightarrow> Raise e
              | Inr zeros_C \<Rightarrow>
                  (case (if local_rows > 0
                         then (case B' of None \<Rightarrow> Inl TypeError | Some B'' \<Rightarrow> np_dot local_A B'')
                         else Inr zeros_C) of
                     Inl e \<Rightarrow> Raise e
                   | Inr local_C \<Rightarrow>
                       if (0::int) = 0 then
                         (case np_zeros sz sz of
                            Inl e \<Rightarrow> Raise e
                          | Inr C0 \<Rightarrow>
                              (case set_rows C0 start_row (start_row + local_rows) local_C of
                                 Inl e \<Rightarrow> Raise e
                               | Inr C \<Rightarrow> gather_recvs sz n [1..n - 1] C))
                       else if local_rows > 0
                         then Send local_C 0 (0 + 100) (Return None)
                         else Return None)))"
    unfolding mpi_matrix_multiply_def init by simp
  ultimately show ?thesis unfolding start1 by blast
qed

subsection \<open>The complete call\<close>

text \<open>
  The whole call on a group of \<open>n\<close> ranks: the broadcast, one transfer from the root to
  every other rank with rows, one transfer back from each of them, and then every rank
  has returned; the root returns the rows of the product.
\<close>

lemma world_steps:
  fixes A B :: "('a::{zero,plus,times}) matrix"
  assumes "0 \<le> sz" and "1 \<le> n"
    and init: "initialize_matrices mt g sz 0 = Inr (Some A, Some B)"
  shows "steps (mpi_world mt g sz n)
           (Broadcast 0
              # map (\<lambda>r. Transfer 0 r r) (filter (\<lambda>r. 0 < fst (row_range sz r n)) [1..n - 1])
              @ map (\<lambda>r. Transfer r 0 (r + 100)) (filter (\<lambda>r. 0 < fst (row_range sz r n)) [1..n - 1]))
           (Return (Some (map (\<lambda>row. dot_row row B) A)) # map (\<lambda>r. Return None) [1..n - 1])"
proof -
  let ?m = "n - 1"
  let ?P = "map (\<lambda>row. dot_row row B) A"
  let ?Z = "replicate (nat sz) (replicate (nat sz) (0::'a))"
  let ?rows = "\<lambda>r. fst (row_range sz r n)"
  let ?start = "\<lambda>r. snd (row_range sz r n)"
  let ?prog = "\<lambda>r. mpi_matrix_multiply mt g sz r n"
  let ?F = "\<lambda>r local_A. case np_dot local_A B of
                            Inl e \<Rightarrow> Raise e
                          | Inr local_C \<Rightarrow> Send local_C 0 (r + 100) (Return (None :: 'a matrix option))"
  let ?W1 = "\<lambda>r. if 0 < ?rows r then Recv 0 r (?F r) else Return (None :: 'a matrix option)"
  let ?blk = "\<lambda>r. py_slice A (?start r) (?start r + ?rows r)"
  let ?D = "\<lambda>r. take (nat (?rows r)) (drop (nat (?start r)) ?P)"
  let ?Cs = "\<lambda>r. take (nat (?start r)) ?P @ drop (nat (?start r)) ?Z"
  let ?W2 = "\<lambda>r. if 1 \<le> r \<and> 0 < ?rows r
                   then Send (?D r) 0 (r + 100) (Return None) else Return (None :: 'a matrix option)"
  let ?scatter = "map (\<lambda>r. Transfer 0 r r) (filter (\<lambda>r. 0 < ?rows r) [1..?m])"
  let ?gather = "map (\<lambda>r. Transfer r 0 (r + 100)) (filter (\<lambda>r. 0 < ?rows r) [1..?m])"
  have pos: "0 < n" using assms(2) by simp
  have shape: "length A = nat sz" "\<forall>row \<in> set A. length row = length B"
    using initialize_matrices_shape [OF init] by simp_all
  have lenP: "length ?P = nat sz" using shape(1) by simp
  from root_program [OF assms(1) pos init] obtain K where
    root: "?prog 0 = Bcast (Some B) 0 K"
    and K: "K (Some B) = scatter_sends A (sz div n) (sz mod n) [1..?m]
                           (gather_recvs sz n [1..?m] (?Cs 1))"
    by blast
  have worker: "?prog r = Bcast None 0 (\<lambda>B'.
             if 0 < ?rows r
             then Recv 0 r (\<lambda>local_A.
                    case (case B' of None \<Rightarrow> Inl TypeError | Some B'' \<Rightarrow> np_dot local_A B'') of
                      Inl e \<Rightarrow> Raise e
                    | Inr local_C \<Rightarrow> Send local_C 0 (r + 100) (Return None))
             else Return None)" if "r \<in> set [1..?m]" for r
    using that by (intro worker_program [OF assms(1) pos]) simp
  have ranks: "[0..?m] = 0 # [1..?m]" using assms(2) by (simp add: upto_rec1)
  have w0: "mpi_world mt g sz n = ?prog 0 # map ?prog [1..?m]"
    unfolding mpi_world_def ranks by simp
  have all_bcast: "list_all (at_bcast 0) (?prog 0 # map ?prog [1..?m])"
    using root worker by (simp add: list_all_iff)
  have after: "map (after_bcast (bcast_value ((?prog 0 # map ?prog [1..?m]) ! 0)))
                 (?prog 0 # map ?prog [1..?m])
               = K (Some B) # map ?W1 [1..?m]"
    using root worker by simp
  have bcast: "enabled (mpi_world mt g sz n) = [(Broadcast 0, K (Some B) # map ?W1 [1..?m])]"
    unfolding w0 using step_broadcast [OF _ all_bcast] after by simp
  have bounds: "0 \<le> ?start r \<and> 0 \<le> ?rows r \<and> nat (?start r + ?rows r) \<le> nat sz
                \<and> ?start (r + 1) = ?start r + ?rows r"
    if "r \<in> set [1..?m]" for r
  proof -
    from that have r: "0 \<le> r" "r < n" by simp_all
    have "?start r + ?rows r \<le> sz" using assms(1) pos r by (rule row_range_bounds)
    moreover have "0 \<le> ?start r" using assms(1) pos r by (rule row_range_bounds)
    moreover have "0 \<le> ?rows r" using assms(1) pos by (rule row_range_rows_nonneg)
    ultimately show ?thesis by (simp add: row_range_next)
  qed
  have sent: "map (\<lambda>r. if 1 \<le> r \<and> 0 < ?rows r then ?F r (?blk r) else ?W1 r) [1..?m]
              = map ?W2 [1..?m]"
  proof (intro map_cong refl)
    fix r assume r: "r \<in> set [1..?m]"
    note b = bounds [OF r]
    have "?blk r = take (nat (?rows r)) (drop (nat (?start r)) A)"
      using b shape(1) by (intro py_slice_block) simp_all
    moreover have "np_dot (take (nat (?rows r)) (drop (nat (?start r)) A)) B = Inr (?D r)"
      using shape(2) by (rule np_dot_rows)
    ultimately have "?F r (?blk r) = Send (?D r) 0 (r + 100) (Return None)" by simp
    moreover have "1 \<le> r" using r by simp
    ultimately show "(if 1 \<le> r \<and> 0 < ?rows r then ?F r (?blk r) else ?W1 r) = ?W2 r"
      by simp
  qed
  have "steps (scatter_sends A (sz div n) (sz mod n) [1..?m] (gather_recvs sz n [1..?m] (?Cs 1))
                 # map ?W1 [1..?m])
          ?scatter
          (gather_recvs sz n [1..?m] (?Cs 1)
             # map (\<lambda>r. if 1 \<le> r \<and> 0 < ?rows r then ?F r (?blk r) else ?W1 r) [1..?m])"
    by (rule scatter_phase) (simp_all split: sum.splits)
  then have scatter: "steps (K (Some B) # map ?W1 [1..?m]) ?scatter
                        (gather_recvs sz n [1..?m] (?Cs 1) # map ?W2 [1..?m])"
    unfolding K sent .
  have fill: "\<forall>r. 1 \<le> r \<and> r \<le> ?m \<and> 0 < ?rows r \<longrightarrow>
           set_rows (?Cs r) (?start r) (?start r + ?rows r) (?D r) = Inr (?Cs (r + 1))"
  proof (intro allI impI)
    fix r assume "1 \<le> r \<and> r \<le> ?m \<and> 0 < ?rows r"
    then have "r \<in> set [1..?m]" by simp
    note b = bounds [OF this]
    have "set_rows (?Cs r) (?start r) (?start r + ?rows r) (?D r)
            = Inr (take (nat (?start r + ?rows r)) ?P @ drop (nat (?start r + ?rows r)) ?Z)"
      using b lenP by (intro set_rows_accumulate) simp_all
    then show "set_rows (?Cs r) (?start r) (?start r + ?rows r) (?D r) = Inr (?Cs (r + 1))"
      using b by simp
  qed
  have skip: "\<forall>r. 1 \<le> r \<and> r \<le> ?m \<and> \<not> 0 < ?rows r \<longrightarrow> ?Cs (r + 1) = ?Cs r"
  proof (intro allI impI)
    fix r assume a: "1 \<le> r \<and> r \<le> ?m \<and> \<not> 0 < ?rows r"
    then have "r \<in> set [1..?m]" by simp
    note b = bounds [OF this]
    from a b have "?start (r + 1) = ?start r" by simp
    then show "?Cs (r + 1) = ?Cs r" by simp
  qed
  have last: "?Cs (max 1 (?m + 1)) = ?P"
  proof -
    have "max 1 (?m + 1) = n" using assms(2) by simp
    moreover have "?start n = sz" by (rule row_range_end [OF pos])
    ultimately show ?thesis using lenP by simp
  qed
  have "steps (gather_recvs sz n [1..?m] (?Cs 1) # map ?W2 [1..?m]) ?gather
          (Return (Some (?Cs (max 1 (?m + 1)))) # map (\<lambda>r. Return None) [1..?m])"
    using fill skip by (intro gather_phase) simp_all
  then have gather: "steps (gather_recvs sz n [1..?m] (?Cs 1) # map ?W2 [1..?m]) ?gather
          (Return (Some ?P) # map (\<lambda>r. Return None) [1..?m])"
    unfolding last .
  from steps_step [OF bcast steps_trans [OF scatter gather]] show ?thesis .
qed

lemma world_run:
  fixes A B :: "('a::{zero,plus,times}) matrix"
  assumes "0 \<le> sz" and "1 \<le> n"
    and init: "initialize_matrices mt g sz 0 = Inr (Some A, Some B)"
    and fuel: "2 * nat n \<le> fuel"
  shows "run fuel (mpi_world mt g sz n) =
           (Broadcast 0
              # map (\<lambda>r. Transfer 0 r r) (filter (\<lambda>r. 0 < fst (row_range sz r n)) [1..n - 1])
              @ map (\<lambda>r. Transfer r 0 (r + 100)) (filter (\<lambda>r. 0 < fst (row_range sz r n)) [1..n - 1]),
            Return (Some (map (\<lambda>row. dot_row row B) A)) # map (\<lambda>r. Return None) [1..n - 1])"
proof (rule steps_run [OF world_steps [OF assms(1,2) init]])
  show "world_step (Return (Some (map (\<lambda>row. dot_row row B) A)) # map (\<lambda>r. Return None) [1..n - 1])
          = None"
    by (rule step_all_returned) auto
next
  let ?with_rows = "filter (\<lambda>r. 0 < fst (row_range sz r n)) [1..n - 1]"
  have "length ?with_rows \<le> length [1..n - 1]" by (rule length_filter_le)
  then have "length ?with_rows \<le> nat n - 1" by simp
  then show "length (Broadcast 0 # map (\<lambda>r. Transfer 0 r r) ?with_rows
                       @ map (\<lambda>r. Transfer r 0 (r + 100)) ?with_rows) \<le> fuel"
    using fuel assms(2) by simp
qed

text \<open>In whatever order the possible steps are taken, the execution is the same.\<close>

lemma world_execs:
  fixes A B :: "('a::{zero,plus,times}) matrix"
  assumes "0 \<le> sz" and "1 \<le> n"
    and init: "initialize_matrices mt g sz 0 = Inr (Some A, Some B)"
  shows "execs (mpi_world mt g sz n) es w' \<longleftrightarrow>
           es = Broadcast 0
                  # map (\<lambda>r. Transfer 0 r r) (filter (\<lambda>r. 0 < fst (row_range sz r n)) [1..n - 1])
                  @ map (\<lambda>r. Transfer r 0 (r + 100)) (filter (\<lambda>r. 0 < fst (row_range sz r n)) [1..n - 1])
         \<and> w' = Return (Some (map (\<lambda>row. dot_row row B) A)) # map (\<lambda>r. Return None) [1..n - 1]"
proof -
  have stuck: "enabled (Return (Some (map (\<lambda>row. dot_row row B) A))
                          # map (\<lambda>r. Return (None :: 'a matrix option)) [1..n - 1]) = []"
    by (rule enabled_all_returned) auto
  show ?thesis
    using execs_unique [OF world_steps [OF assms] stuck, of es w']
          steps_execs [OF world_steps [OF assms] stuck]
    by blast
qed

lemma np_dot_square:
  assumes "initialize_matrices mt g sz 0 = Inr (Some A, Some B)"
  shows "np_dot A B = Inr (map (\<lambda>row. dot_row row B) A)"
  using initialize_matrices_shape [OF assms] by (simp add: np_dot_def)

lemma fixture_matrices:
  "initialize_matrices ramp_stream g 2 0 = Inr (Some [[0, 1], [2, 3]], Some [[4, 5], [6, 7]])"
  by (simp add: initialize_matrices_def np_random_seed_def np_random_rand_def ramp_stream_def
                upt_rec numeral_2_eq_2 Let_def)

lemma fixture_product:
  "serial_matrix_multiply [[0, 1], [2, 3]] [[4, 5], [6, 7::real]] = Inr [[6, 7], [26, 31]]"
  by (simp add: serial_matrix_multiply_def np_dot_def dot_row_def ncols_def upt_rec numeral_2_eq_2)

section \<open>The distributed product\<close>

text \<open>
  In this model the matrix that the root returns is \<open>np_dot A B\<close> itself, whatever the
  number of ranks (\<open>world_run\<close>), because \<open>np_dot\<close> computes every row of the product
  alone and in one order. That says how the blocks are cut, multiplied and put together;
  it says nothing on how far the \<^verbatim>\<open>float64\<close> product of a row block is from the rows of
  the \<^verbatim>\<open>float64\<close> product of the whole matrix, which depends on the rounding inside the
  library's kernel.
\<close>

text \<open>
  Claim C8. On a group of one rank the call makes no transfer: the sole rank is assigned
  all \<open>sz\<close> rows from row 0, its block is the whole of \<open>A\<close>, the only event of the run
  is the broadcast, and the matrix returned is \<^verbatim>\<open>np.dot(A, B)\<close> of the full matrices.
\<close>

theorem single_process:
  fixes mt :: "int \<Rightarrow> nat \<Rightarrow> 'a::{zero,plus,times}"
  assumes "0 \<le> sz"
  shows "\<exists>A B C.
           initialize_matrices mt g sz 0 = Inr (Some A, Some B)
         \<and> np_dot A B = Inr C
         \<and> row_range sz 0 1 = (sz, 0)
         \<and> py_slice A 0 (0 + sz) = A
         \<and> run 2 (mpi_world mt g sz 1) = ([Broadcast 0], [Return (Some C)])"
proof -
  from initialize_matrices_root [OF assms] obtain A B where
    init: "initialize_matrices mt g sz 0 = Inr (Some A, Some B)" by blast
  let ?C = "map (\<lambda>row. dot_row row B) A"
  have "run 2 (mpi_world mt g sz 1) = ([Broadcast 0], [Return (Some ?C)])"
    using world_run [OF assms _ init, of 1 2] by simp
  moreover have "np_dot A B = Inr ?C" by (rule np_dot_square [OF init])
  moreover have "row_range sz 0 1 = (sz, 0)" by (simp add: row_range_def)
  moreover have "py_slice A 0 (0 + sz) = A"
    using initialize_matrices_shape(1) [OF init] assms
    by (simp add: py_slice_def py_index_def)
  ultimately show ?thesis using init by blast
qed

theorem single_process_witness:
  "(0::int) \<le> 2
   \<and> run 2 (mpi_world ramp_stream used_rng 2 1) = ([Broadcast 0], [Return (Some [[6, 7], [26, 31]])])"
proof -
  from single_process [of 2 ramp_stream used_rng] obtain A B C where
    w: "initialize_matrices ramp_stream used_rng 2 0 = Inr (Some A, Some B)"
       "np_dot A B = Inr C"
       "run 2 (mpi_world ramp_stream used_rng 2 1) = ([Broadcast 0], [Return (Some C)])"
    by auto
  from w(1) have "A = [[0, 1], [2, 3]]" "B = [[4, 5], [6, 7]]"
    by (simp_all add: fixture_matrices)
  with w(2) have "C = [[6, 7], [26, 31]]"
    using fixture_product by (simp add: serial_matrix_multiply_def)
  with w(3) show ?thesis by simp
qed

text \<open>
  Claim C10. The generator state \<open>g\<close> at the time of the call has no influence: the
  generated matrices, the program of every rank and every run of the group are the same
  for any two states, because the root reseeds the generator with 42. For
  \<open>sz \<ge> 0\<close> and \<open>num_procs \<ge> 1\<close> the root returns the product of the generated
  matrices and every other rank returns \<open>None\<close>.
\<close>

theorem seed_determinism:
  fixes mt :: "int \<Rightarrow> nat \<Rightarrow> 'a::{zero,plus,times}"
  shows "initialize_matrices mt g sz rank = initialize_matrices mt g' sz rank
       \<and> mpi_matrix_multiply mt g sz rank num_procs = mpi_matrix_multiply mt g' sz rank num_procs
       \<and> run fuel (mpi_world mt g sz num_procs) = run fuel (mpi_world mt g' sz num_procs)
       \<and> (0 \<le> sz \<and> 1 \<le> num_procs \<longrightarrow>
            (\<exists>A B C. initialize_matrices mt g sz 0 = Inr (Some A, Some B)
               \<and> np_dot A B = Inr C
               \<and> snd (run (2 * nat num_procs) (mpi_world mt g sz num_procs))
                   = Return (Some C) # replicate (nat num_procs - 1) (Return None)))"
proof -
  have init: "initialize_matrices mt g sz r = initialize_matrices mt g' sz r" for r
    by (simp add: initialize_matrices_def)
  have prog: "mpi_matrix_multiply mt g sz r num_procs = mpi_matrix_multiply mt g' sz r num_procs" for r
    by (simp add: mpi_matrix_multiply_def init)
  have world: "mpi_world mt g sz num_procs = mpi_world mt g' sz num_procs"
    by (simp add: mpi_world_def prog)
  have "\<exists>A B C. initialize_matrices mt g sz 0 = Inr (Some A, Some B)
               \<and> np_dot A B = Inr C
               \<and> snd (run (2 * nat num_procs) (mpi_world mt g sz num_procs))
                   = Return (Some C) # replicate (nat num_procs - 1) (Return None)"
    if "0 \<le> sz" and "1 \<le> num_procs"
  proof -
    from initialize_matrices_root [OF that(1)] obtain A B where
      i: "initialize_matrices mt g sz 0 = Inr (Some A, Some B)" by blast
    have "map (\<lambda>r. Return None) [1..num_procs - 1] = replicate (nat num_procs - 1) (Return None)"
      by (simp add: map_replicate_const)
    then have "snd (run (2 * nat num_procs) (mpi_world mt g sz num_procs))
            = Return (Some (map (\<lambda>row. dot_row row B) A)) # replicate (nat num_procs - 1) (Return None)"
      using world_run [OF that i order_refl] by simp
    then show ?thesis using i np_dot_square [OF i] by blast
  qed
  then show ?thesis using init prog world by simp
qed

theorem seed_determinism_witness:
  "snd (run (2 * nat 3) (mpi_world ramp_stream used_rng 2 3))
     = [Return (Some [[6, 7], [26, 31]]), Return None, Return None]
   \<and> run 6 (mpi_world ramp_stream used_rng 2 3)
     = run 6 (mpi_world ramp_stream \<lparr>stream = ramp_stream 0, pos = 0\<rparr> 2 3)"
proof -
  note t = seed_determinism [of ramp_stream used_rng 2 0 "\<lparr>stream = ramp_stream 0, pos = 0\<rparr>" 3 6]
  have hyp: "(0::int) \<le> 2 \<and> (1::int) \<le> 3" by simp
  note same = t [THEN conjunct2, THEN conjunct2, THEN conjunct1]
  from t [THEN conjunct2, THEN conjunct2, THEN conjunct2, THEN mp, OF hyp] obtain A B C where
    w: "initialize_matrices ramp_stream used_rng 2 0 = Inr (Some A, Some B)"
       "np_dot A B = Inr C"
       "snd (run (2 * nat 3) (mpi_world ramp_stream used_rng 2 3))
          = Return (Some C) # replicate (nat 3 - 1) (Return None)"
    by blast
  from w(1) have "A = [[0, 1], [2, 3]]" "B = [[4, 5], [6, 7]]"
    by (simp_all add: fixture_matrices)
  with w(2) have "C = [[6, 7], [26, 31]]"
    using fixture_product by (simp add: serial_matrix_multiply_def)
  with w(3) have "snd (run (2 * nat 3) (mpi_world ramp_stream used_rng 2 3))
     = [Return (Some [[6, 7], [26, 31]]), Return None, Return None]"
    by (simp add: numeral_3_eq_3)
  with same show ?thesis by blast
qed

section \<open>Matching of sends and receives\<close>

text \<open>
  Claim C4. For \<open>sz \<ge> 0\<close> and \<open>num_procs \<ge> 1\<close> the run ends with every rank returned,
  so no \<^verbatim>\<open>send\<close> or \<^verbatim>\<open>recv\<close> is left without its counterpart, and no transfer
  happens twice; every complete execution, whatever the order of its steps, has the same
  events and the same end. For every rank \<open>r\<close> other than the root: the transfer of the block from
  the root to \<open>r\<close> with tag \<open>r\<close> happens if and only if \<open>r\<close> has more than 0 rows; the
  program of \<open>r\<close> after the broadcast is a \<^verbatim>\<open>recv\<close> from the root with tag \<open>r\<close> if and
  only if \<open>r\<close> has more than 0 rows; and the transfer of the result from \<open>r\<close> to the
  root with tag \<open>r + 100\<close> happens if and only if \<open>r\<close> has more than 0 rows. There is no
  other transfer.
\<close>

theorem transfers_matched:
  fixes mt :: "int \<Rightarrow> nat \<Rightarrow> 'a::{zero,plus,times}"
  assumes "0 \<le> sz" and "1 \<le> num_procs"
  shows "\<exists>log final.
           run (2 * nat num_procs) (mpi_world mt g sz num_procs) = (log, final)
         \<and> (\<forall>es w'. execs (mpi_world mt g sz num_procs) es w' \<longleftrightarrow> es = log \<and> w' = final)
         \<and> list_all returned final
         \<and> distinct log
         \<and> (\<forall>r. 1 \<le> r \<and> r < num_procs \<longrightarrow>
                (Transfer 0 r r \<in> set log \<longleftrightarrow> 0 < fst (row_range sz r num_procs))
              \<and> (\<forall>bv. (\<exists>f. after_bcast bv (mpi_matrix_multiply mt g sz r num_procs) = Recv 0 r f)
                         \<longleftrightarrow> 0 < fst (row_range sz r num_procs))
              \<and> (Transfer r 0 (r + 100) \<in> set log \<longleftrightarrow> 0 < fst (row_range sz r num_procs)))
         \<and> (\<forall>s d t. Transfer s d t \<in> set log \<longrightarrow>
                (s = 0 \<and> 1 \<le> d \<and> d < num_procs \<and> t = d)
              \<or> (d = 0 \<and> 1 \<le> s \<and> s < num_procs \<and> t = s + 100))"
proof -
  let ?rows = "\<lambda>r. fst (row_range sz r num_procs)"
  let ?with_rows = "filter (\<lambda>r. 0 < ?rows r) [1..num_procs - 1]"
  let ?log = "Broadcast 0 # map (\<lambda>r. Transfer 0 r r) ?with_rows
                @ map (\<lambda>r. Transfer r 0 (r + 100)) ?with_rows"
  have pos: "0 < num_procs" using assms(2) by simp
  from initialize_matrices_root [OF assms(1)] obtain A B where
    init: "initialize_matrices mt g sz 0 = Inr (Some A, Some B)" by blast
  let ?final = "Return (Some (map (\<lambda>row. dot_row row B) A))
                  # map (\<lambda>r. Return None) [1..num_procs - 1]"
  have run: "run (2 * nat num_procs) (mpi_world mt g sz num_procs) = (?log, ?final)"
    by (rule world_run [OF assms init order_refl])
  have fin: "list_all returned ?final" by (simp add: list_all_iff)
  have "distinct ?with_rows" by simp
  then have dist: "distinct ?log"
    by (auto simp: distinct_map inj_on_def)
  have scatter: "Transfer 0 r r \<in> set ?log \<longleftrightarrow> 0 < ?rows r"
    if "1 \<le> r \<and> r < num_procs" for r
    using that by auto
  have gather: "Transfer r 0 (r + 100) \<in> set ?log \<longleftrightarrow> 0 < ?rows r"
    if "1 \<le> r \<and> r < num_procs" for r
    using that by auto
  have recv: "(\<exists>f. after_bcast bv (mpi_matrix_multiply mt g sz r num_procs) = Recv 0 r f)
                \<longleftrightarrow> 0 < ?rows r"
    if "1 \<le> r \<and> r < num_procs" for r bv
  proof -
    from that have "r \<noteq> 0" by simp
    from worker_program [OF assms(1) pos this, where mt = mt and g = g] show ?thesis by simp
  qed
  have only: "(s = 0 \<and> 1 \<le> d \<and> d < num_procs \<and> t = d)
              \<or> (d = 0 \<and> 1 \<le> s \<and> s < num_procs \<and> t = s + 100)"
    if "Transfer s d t \<in> set ?log" for s d t
    using that by auto
  have any: "\<forall>es w'. execs (mpi_world mt g sz num_procs) es w' \<longleftrightarrow> es = ?log \<and> w' = ?final"
    by (intro allI) (rule world_execs [OF assms init])
  have per_rank: "\<forall>r. 1 \<le> r \<and> r < num_procs \<longrightarrow>
                (Transfer 0 r r \<in> set ?log \<longleftrightarrow> 0 < ?rows r)
              \<and> (\<forall>bv. (\<exists>f. after_bcast bv (mpi_matrix_multiply mt g sz r num_procs) = Recv 0 r f)
                         \<longleftrightarrow> 0 < ?rows r)
              \<and> (Transfer r 0 (r + 100) \<in> set ?log \<longleftrightarrow> 0 < ?rows r)"
    using scatter gather recv by blast
  have others: "\<forall>s d t. Transfer s d t \<in> set ?log \<longrightarrow>
                (s = 0 \<and> 1 \<le> d \<and> d < num_procs \<and> t = d)
              \<or> (d = 0 \<and> 1 \<le> s \<and> s < num_procs \<and> t = s + 100)"
    using only by blast
  show ?thesis
    by (intro exI [of _ ?log] exI [of _ ?final] conjI run any fin dist per_rank others)
qed

theorem transfers_matched_witness:
  "(0::int) \<le> 2 \<and> (1::int) \<le> 4
   \<and> list_all returned (snd (run (2 * nat 4) (mpi_world ramp_stream used_rng 2 4)))
   \<and> Transfer 0 1 1 \<in> set (fst (run (2 * nat 4) (mpi_world ramp_stream used_rng 2 4)))
   \<and> Transfer 1 0 101 \<in> set (fst (run (2 * nat 4) (mpi_world ramp_stream used_rng 2 4)))
   \<and> Transfer 0 3 3 \<notin> set (fst (run (2 * nat 4) (mpi_world ramp_stream used_rng 2 4)))
   \<and> Transfer 3 0 103 \<notin> set (fst (run (2 * nat 4) (mpi_world ramp_stream used_rng 2 4)))"
proof -
  have rows: "fst (row_range 2 1 4) = 1" "fst (row_range 2 3 4) = 0"
    by (simp_all add: row_range_def)
  from transfers_matched [of 2 4 ramp_stream used_rng] obtain log final where
    r: "run (2 * nat 4) (mpi_world ramp_stream used_rng 2 4) = (log, final)"
    and f: "list_all returned final"
    and m: "\<forall>r. 1 \<le> r \<and> r < 4 \<longrightarrow>
                (Transfer 0 r r \<in> set log \<longleftrightarrow> 0 < fst (row_range 2 r 4))
              \<and> (\<forall>bv. (\<exists>f. after_bcast bv (mpi_matrix_multiply ramp_stream used_rng 2 r 4) = Recv 0 r f)
                         \<longleftrightarrow> 0 < fst (row_range 2 r 4))
              \<and> (Transfer r 0 (r + 100) \<in> set log \<longleftrightarrow> 0 < fst (row_range 2 r 4))"
    by auto
  from m [rule_format, of 1] m [rule_format, of 3] rows
  have "Transfer 0 1 1 \<in> set log" "Transfer 1 0 101 \<in> set log"
       "Transfer 0 3 3 \<notin> set log" "Transfer 3 0 103 \<notin> set log"
    by simp_all
  with f show ?thesis unfolding r by simp
qed

section \<open>Fewer rows than ranks\<close>

lemma row_range_small:
  assumes "0 \<le> sz" and "sz < n"
  shows "row_range sz r n = (if r < sz then (1, r) else (0, sz))"
  using assms by (simp add: row_range_def Let_def)

text \<open>
  Claim C7. For \<open>0 \<le> sz < num_procs\<close>, every rank from \<open>sz\<close> on has the empty range
  \<open>(0, sz)\<close>; such a rank (other than the root) takes part in the broadcast and returns
  without any \<^verbatim>\<open>send\<close> or \<^verbatim>\<open>recv\<close>; the run ends with every rank returned, no
  transfer has such a rank as source or destination, and the matrix returned on the root
  has \<open>sz\<close> rows.
\<close>

theorem fewer_rows_than_ranks:
  fixes mt :: "int \<Rightarrow> nat \<Rightarrow> 'a::{zero,plus,times}"
  assumes "0 \<le> sz" and "sz < num_procs"
  shows "(\<forall>r. sz \<le> r \<and> r < num_procs \<longrightarrow> row_range sz r num_procs = (0, sz))
       \<and> (\<forall>r. sz \<le> r \<and> r < num_procs \<and> r \<noteq> 0 \<longrightarrow>
             mpi_matrix_multiply mt g sz r num_procs = Bcast None 0 (\<lambda>B. Return None))
       \<and> (\<exists>log C.
             run (2 * nat num_procs) (mpi_world mt g sz num_procs)
               = (log, Return (Some C) # replicate (nat num_procs - 1) (Return None))
           \<and> length C = nat sz
           \<and> (\<forall>r s d t. sz \<le> r \<and> r < num_procs \<and> Transfer s d t \<in> set log \<longrightarrow> s \<noteq> r \<and> d \<noteq> r))"
proof -
  let ?rows = "\<lambda>r. fst (row_range sz r num_procs)"
  let ?with_rows = "filter (\<lambda>r. 0 < ?rows r) [1..num_procs - 1]"
  let ?log = "Broadcast 0 # map (\<lambda>r. Transfer 0 r r) ?with_rows
                @ map (\<lambda>r. Transfer r 0 (r + 100)) ?with_rows"
  have pos: "0 < num_procs" and one: "1 \<le> num_procs" using assms by simp_all
  have rows: "0 < ?rows r \<longleftrightarrow> r < sz" for r
    by (simp add: row_range_small [OF assms])
  have a: "\<forall>r. sz \<le> r \<and> r < num_procs \<longrightarrow> row_range sz r num_procs = (0, sz)"
    by (simp add: row_range_small [OF assms])
  have b: "\<forall>r. sz \<le> r \<and> r < num_procs \<and> r \<noteq> 0 \<longrightarrow>
             mpi_matrix_multiply mt g sz r num_procs = Bcast None 0 (\<lambda>B. Return None)"
  proof (intro allI impI)
    fix r assume r: "sz \<le> r \<and> r < num_procs \<and> r \<noteq> 0"
    then have "\<not> 0 < ?rows r" using rows by simp
    with r worker_program [OF assms(1) pos, of r mt g]
    show "mpi_matrix_multiply mt g sz r num_procs = Bcast None 0 (\<lambda>B. Return None)" by simp
  qed
  from initialize_matrices_root [OF assms(1)] obtain A B where
    init: "initialize_matrices mt g sz 0 = Inr (Some A, Some B)" by blast
  let ?C = "map (\<lambda>row. dot_row row B) A"
  have "map (\<lambda>r. Return None) [1..num_procs - 1] = replicate (nat num_procs - 1) (Return None)"
    by (simp add: map_replicate_const)
  then have run: "run (2 * nat num_procs) (mpi_world mt g sz num_procs)
               = (?log, Return (Some ?C) # replicate (nat num_procs - 1) (Return None))"
    using world_run [OF assms(1) one init order_refl] by simp
  have len: "length ?C = nat sz" using initialize_matrices_shape(1) [OF init] by simp
  have idle: "\<forall>r s d t. sz \<le> r \<and> r < num_procs \<and> Transfer s d t \<in> set ?log \<longrightarrow> s \<noteq> r \<and> d \<noteq> r"
    using assms(1) by (auto simp: rows)
  from a b run len idle show ?thesis by blast
qed

theorem fewer_rows_than_ranks_witness:
  "(0::int) \<le> 2 \<and> (2::int) < 4
   \<and> row_range 2 3 4 = (0, 2)
   \<and> mpi_matrix_multiply ramp_stream used_rng 2 3 4 = Bcast None 0 (\<lambda>B. Return None)
   \<and> (\<exists>C. snd (run (2 * nat 4) (mpi_world ramp_stream used_rng 2 4))
                = [Return (Some C), Return None, Return None, Return None]
            \<and> length C = 2)
   \<and> Transfer 0 3 3 \<notin> set (fst (run (2 * nat 4) (mpi_world ramp_stream used_rng 2 4)))
   \<and> Transfer 3 0 103 \<notin> set (fst (run (2 * nat 4) (mpi_world ramp_stream used_rng 2 4)))"
proof -
  have hyp: "(0::int) \<le> 2" "(2::int) < 4" by simp_all
  note t = fewer_rows_than_ranks [OF hyp, of ramp_stream used_rng]
  from t have a: "row_range 2 3 4 = (0, 2)" by simp
  from t have b: "mpi_matrix_multiply ramp_stream used_rng 2 3 4 = Bcast None 0 (\<lambda>B. Return None)"
    by simp
  from t obtain log C where
    r: "run (2 * nat 4) (mpi_world ramp_stream used_rng 2 4)
       = (log, Return (Some C) # replicate (nat 4 - 1) (Return None))"
    and l: "length C = nat 2"
    and i: "\<forall>r s d t. 2 \<le> r \<and> r < 4 \<and> Transfer s d t \<in> set log \<longrightarrow> s \<noteq> r \<and> d \<noteq> r"
    by blast
  from i [rule_format, of 3 0 3 3] i [rule_format, of 3 3 0 103]
  have c: "Transfer 0 3 3 \<notin> set log" "Transfer 3 0 103 \<notin> set log" by auto
  have d: "\<exists>C. snd (run (2 * nat 4) (mpi_world ramp_stream used_rng 2 4))
                = [Return (Some C), Return None, Return None, Return None]
            \<and> length C = 2"
    using l unfolding r by (intro exI [of _ C]) (simp add: numeral_3_eq_3)
  from a b c d hyp show ?thesis unfolding r by simp
qed

section \<open>Tags\<close>

lemma scatter_tags_append: "scatter_tags (xs @ ys) = scatter_tags xs @ scatter_tags ys"
  by (induction xs rule: scatter_tags.induct) simp_all

lemma gather_tags_append: "gather_tags (xs @ ys) = gather_tags xs @ gather_tags ys"
  by (induction xs rule: gather_tags.induct) simp_all

lemma tags_of_scatter:
  assumes "0 \<notin> set rs"
  shows "scatter_tags (map (\<lambda>r. Transfer 0 r r) rs) = rs"
    and "gather_tags (map (\<lambda>r. Transfer 0 r r) rs) = []"
  using assms by (induction rs) auto

lemma tags_of_gather:
  assumes "0 \<notin> set rs"
  shows "scatter_tags (map (\<lambda>r. Transfer r 0 (r + 100)) rs) = []"
    and "gather_tags (map (\<lambda>r. Transfer r 0 (r + 100)) rs) = map (\<lambda>r. r + 100) rs"
  using assms by (induction rs) auto

lemma run_tags:
  fixes mt :: "int \<Rightarrow> nat \<Rightarrow> 'a::{zero,plus,times}"
  assumes "0 \<le> sz" and "1 \<le> n"
  shows "\<exists>log final. run (2 * nat n) (mpi_world mt g sz n) = (log, final)
           \<and> scatter_tags log = filter (\<lambda>r. 0 < fst (row_range sz r n)) [1..n - 1]
           \<and> gather_tags log = map (\<lambda>r. r + 100) (filter (\<lambda>r. 0 < fst (row_range sz r n)) [1..n - 1])
           \<and> (\<forall>s d t. Transfer s d t \<in> set log \<longrightarrow>
                  (s = 0 \<and> d \<noteq> 0 \<and> t = d) \<or> (d = 0 \<and> s \<noteq> 0 \<and> t = s + 100))"
proof -
  let ?with_rows = "filter (\<lambda>r. 0 < fst (row_range sz r n)) [1..n - 1]"
  let ?log = "Broadcast 0 # map (\<lambda>r. Transfer 0 r r) ?with_rows
                @ map (\<lambda>r. Transfer r 0 (r + 100)) ?with_rows"
  from initialize_matrices_root [OF assms(1)] obtain A B where
    init: "initialize_matrices mt g sz 0 = Inr (Some A, Some B)" by blast
  have run: "run (2 * nat n) (mpi_world mt g sz n)
               = (?log, Return (Some (map (\<lambda>row. dot_row row B) A)) # map (\<lambda>r. Return None) [1..n - 1])"
    by (rule world_run [OF assms init order_refl])
  have no0: "0 \<notin> set ?with_rows" by simp
  have "scatter_tags ?log = ?with_rows"
    by (simp add: scatter_tags_append tags_of_scatter [OF no0] tags_of_gather [OF no0])
  moreover have "gather_tags ?log = map (\<lambda>r. r + 100) ?with_rows"
    by (simp add: gather_tags_append tags_of_scatter [OF no0] tags_of_gather [OF no0])
  moreover have "\<forall>s d t. Transfer s d t \<in> set ?log \<longrightarrow>
                  (s = 0 \<and> d \<noteq> 0 \<and> t = d) \<or> (d = 0 \<and> s \<noteq> 0 \<and> t = s + 100)"
    by auto
  ultimately show ?thesis using run by blast
qed

text \<open>
  Claim C5 says that the tags of the scatter phase and the tags of the gather phase are
  disjoint for every process count. The scatter tag is the destination rank and the
  gather tag is the source rank plus 100, so on 102 ranks with 102 rows the tag 101 is
  used in both phases: by the block sent to rank 101 and by the result sent by rank 1.
\<close>

theorem tag_sets_overlap_counterexample:
  "101 \<in> set (scatter_tags (fst (run 204 (mpi_world ramp_stream used_rng 102 102))))
            \<inter> set (gather_tags (fst (run 204 (mpi_world ramp_stream used_rng 102 102))))"
proof -
  have rows: "0 < fst (row_range 102 1 102)" "0 < fst (row_range 102 101 102)"
    by (simp_all add: row_range_def)
  from run_tags [of 102 102 ramp_stream used_rng] obtain log final where
    r: "run 204 (mpi_world ramp_stream used_rng 102 102) = (log, final)"
    and s: "scatter_tags log = filter (\<lambda>r. 0 < fst (row_range 102 r 102)) [1..102 - 1]"
    and t: "gather_tags log = map (\<lambda>r. r + 100) (filter (\<lambda>r. 0 < fst (row_range 102 r 102)) [1..102 - 1])"
    by auto
  have "101 \<in> set (scatter_tags log)" unfolding s using rows(2) by simp
  moreover have "(1::int) \<in> set (filter (\<lambda>r. 0 < fst (row_range 102 r 102)) [1..102 - 1])"
    using rows(1) by simp
  then have "(1::int) + 100 \<in> set (gather_tags log)"
    unfolding t set_map by (rule imageI)
  ultimately show ?thesis unfolding r by simp
qed

text \<open>
  Claim C5, amended. For \<open>sz \<ge> 0\<close> and \<open>num_procs \<ge> 1\<close>, every transfer of the run is
  either from the root to another rank \<open>d\<close> with tag \<open>d\<close>, or from another rank \<open>s\<close> to
  the root with tag \<open>s + 100\<close>; so a transfer of the scatter phase and a transfer of the
  gather phase never have the same source, destination and tag, and a message of one
  phase cannot meet a receive of the other. For \<open>num_procs \<le> 101\<close> the tags of the two
  phases are disjoint as well.
\<close>

theorem tag_discipline:
  fixes mt :: "int \<Rightarrow> nat \<Rightarrow> 'a::{zero,plus,times}"
  assumes "0 \<le> sz" and "1 \<le> num_procs"
  shows "\<exists>log final.
           run (2 * nat num_procs) (mpi_world mt g sz num_procs) = (log, final)
         \<and> (\<forall>s d t. Transfer s d t \<in> set log \<longrightarrow>
                (s = 0 \<and> d \<noteq> 0 \<and> t = d) \<or> (d = 0 \<and> s \<noteq> 0 \<and> t = s + 100))
         \<and> (\<forall>d t s' t'. Transfer 0 d t \<in> set log \<and> Transfer s' 0 t' \<in> set log \<longrightarrow>
                (0, d, t) \<noteq> (s', 0, t'))
         \<and> (num_procs \<le> 101 \<longrightarrow> set (scatter_tags log) \<inter> set (gather_tags log) = {})"
proof -
  from run_tags [OF assms, of mt g] obtain log final where
    r: "run (2 * nat num_procs) (mpi_world mt g sz num_procs) = (log, final)"
    and s: "scatter_tags log = filter (\<lambda>r. 0 < fst (row_range sz r num_procs)) [1..num_procs - 1]"
    and t: "gather_tags log = map (\<lambda>r. r + 100) (filter (\<lambda>r. 0 < fst (row_range sz r num_procs)) [1..num_procs - 1])"
    and e: "\<forall>s d t. Transfer s d t \<in> set log \<longrightarrow>
                  (s = 0 \<and> d \<noteq> 0 \<and> t = d) \<or> (d = 0 \<and> s \<noteq> 0 \<and> t = s + 100)"
    by blast
  have apart: "\<forall>d t s' t'. Transfer 0 d t \<in> set log \<and> Transfer s' 0 t' \<in> set log \<longrightarrow>
                (0, d, t) \<noteq> (s', 0, t')"
    using e by auto
  have small: "set (scatter_tags log) \<inter> set (gather_tags log) = {}" if "num_procs \<le> 101"
    unfolding s t using that by auto
  from r e apart small show ?thesis by blast
qed

theorem tag_discipline_witness:
  "(0::int) \<le> 5 \<and> (1::int) \<le> 3
   \<and> set (scatter_tags (fst (run (2 * nat 3) (mpi_world ramp_stream used_rng 5 3))))
        \<inter> set (gather_tags (fst (run (2 * nat 3) (mpi_world ramp_stream used_rng 5 3)))) = {}"
proof -
  from tag_discipline [of 5 3 ramp_stream used_rng] obtain log final where
    "run (2 * nat 3) (mpi_world ramp_stream used_rng 5 3) = (log, final)"
    "set (scatter_tags log) \<inter> set (gather_tags log) = {}"
    by auto
  then show ?thesis by simp
qed

section \<open>Invalid configurations\<close>

subsection \<open>Worlds that stop at once or after the broadcast\<close>

lemma enabled_all_leaf:
  assumes "\<forall>p \<in> set w. leaf p"
  shows "enabled w = []"
proof -
  have "try_deliver w i = None" if "i < length w" for i
  proof -
    from that assms have "leaf (w ! i)" by simp
    then show ?thesis by (cases "w ! i") (simp_all add: try_deliver_def)
  qed
  then have "List.map_filter (try_deliver w) [0..<length w] = []"
    by (intro map_filter_none) simp
  moreover have "bcast_ready w = None"
  proof (cases w)
    case Nil
    then show ?thesis by (simp add: bcast_ready_def)
  next
    case (Cons p ws)
    with assms have "leaf p" by simp
    then show ?thesis using Cons by (cases p) simp_all
  qed
  ultimately show ?thesis by (simp add: enabled_def)
qed

lemma execs_stuck:
  assumes "enabled w = []"
  shows "execs w es w' \<longleftrightarrow> es = [] \<and> w' = w"
proof
  assume "execs w es w'"
  then show "es = [] \<and> w' = w" using assms by (cases rule: execs.cases) simp_all
next
  assume "es = [] \<and> w' = w"
  then show "execs w es w'" using assms by (simp add: execs_done)
qed

lemma run_no_step:
  assumes "enabled w = []"
  shows "run fuel w = ([], w)"
  using assms by (intro run_stuck) (simp add: world_step_enabled)

text \<open>A world in which every rank is at the broadcast and goes on without a further call.\<close>

lemma broadcast_then_leaves:
  assumes "w \<noteq> []" and "list_all (at_bcast 0) w"
    and "map (after_bcast (bcast_value (w ! 0))) w = w'" and "\<forall>p \<in> set w'. leaf p"
  shows "run (Suc fuel) w = ([Broadcast 0], w')"
    and "execs w es v \<longleftrightarrow> es = [Broadcast 0] \<and> v = w'"
proof -
  have first: "enabled w = [(Broadcast 0, w')]"
    using step_broadcast [OF assms(1,2)] assms(3) by simp
  have last: "enabled w' = []" by (rule enabled_all_leaf [OF assms(4)])
  have st: "steps w [Broadcast 0] w'"
    by (rule steps_step [OF first steps_refl])
  have "world_step w' = None" using last by (simp add: world_step_enabled)
  then show "run (Suc fuel) w = ([Broadcast 0], w')"
    using st by (intro steps_run) simp_all
  show "execs w es v \<longleftrightarrow> es = [Broadcast 0] \<and> v = w'"
    using execs_unique [OF st last, of es v] steps_execs [OF st last] by blast
qed

lemma group_ranks:
  assumes "1 \<le> k"
  shows "mpi_group mt g sz n k
           = mpi_matrix_multiply mt g sz 0 n # map (\<lambda>rank. mpi_matrix_multiply mt g sz rank n) [1..k - 1]"
  using assms by (simp add: mpi_group_def upto_rec1)

subsection \<open>A negative size\<close>

lemma negative_size_root:
  assumes "sz < 0"
  shows "mpi_matrix_multiply mt g sz 0 n = Raise ValueError"
  using assms
  by (simp add: mpi_matrix_multiply_def initialize_matrices_def np_random_rand_def Let_def)

lemma other_rank_at_bcast:
  assumes "rank \<noteq> 0"
  shows "at_bcast 0 (mpi_matrix_multiply mt g sz rank n)"
  using assms by (simp add: mpi_matrix_multiply_def initialize_matrices_def)

lemma negative_size_group:
  assumes "sz < 0" and "1 \<le> k"
  shows "enabled (mpi_group mt g sz n k) = []"
    and "mpi_group mt g sz n k ! 0 = Raise ValueError"
    and "\<forall>r. 1 \<le> r \<and> r < k \<longrightarrow> at_bcast 0 (mpi_group mt g sz n k ! nat r)"
proof -
  let ?w = "mpi_group mt g sz n k"
  let ?prog = "\<lambda>rank. mpi_matrix_multiply mt g sz rank n"
  have w: "?w = Raise ValueError # map ?prog [1..k - 1]"
    unfolding group_ranks [OF assms(2)] negative_size_root [OF assms(1)] ..
  show root: "?w ! 0 = Raise ValueError" unfolding w by simp
  show others: "\<forall>r. 1 \<le> r \<and> r < k \<longrightarrow> at_bcast 0 (?w ! nat r)"
  proof (intro allI impI)
    fix r assume r: "1 \<le> r \<and> r < k"
    then have "map ?prog [1..k - 1] ! (nat r - 1) = ?prog r" by (intro nth_ranks) simp_all
    moreover have "?w ! nat r = map ?prog [1..k - 1] ! (nat r - 1)"
      unfolding w using r by (cases "nat r") simp_all
    moreover have "r \<noteq> 0" using r by simp
    ultimately show "at_bcast 0 (?w ! nat r)" by (simp add: other_rank_at_bcast)
  qed
  have "try_deliver ?w i = None" if "i < length ?w" for i
  proof (cases i)
    case 0
    then show ?thesis using root by (simp add: try_deliver_def)
  next
    case (Suc j)
    with that have "1 \<le> int i \<and> int i < k" by (simp add: w)
    with others have "at_bcast 0 (?w ! nat (int i))" by blast
    then show ?thesis by (cases "?w ! i") (simp_all add: try_deliver_def)
  qed
  then have "List.map_filter (try_deliver ?w) [0..<length ?w] = []"
    by (intro map_filter_none) simp
  moreover have "bcast_ready ?w = None" unfolding w by simp
  ultimately show "enabled ?w = []" by (simp add: enabled_def)
qed

subsection \<open>A process count of 0 or below\<close>

lemma zero_procs_program:
  "mpi_matrix_multiply mt g sz rank 0 =
     (case initialize_matrices mt g sz rank of
        Inl e \<Rightarrow> Raise e
      | Inr (A, B0) \<Rightarrow> Bcast B0 0 (\<lambda>B. Raise ZeroDivisionError))"
  by (simp add: mpi_matrix_multiply_def distribute_matrix_rows_def split: sum.splits prod.splits)

lemma zero_procs_after:
  "at_bcast 0 (mpi_matrix_multiply mt g sz rank 0) \<Longrightarrow>
     after_bcast v (mpi_matrix_multiply mt g sz rank 0) = Raise ZeroDivisionError"
  by (simp add: zero_procs_program split: sum.splits prod.splits)

lemma rank_at_bcast:
  assumes "0 \<le> sz"
  shows "at_bcast 0 (mpi_matrix_multiply mt g sz rank n)"
proof (cases "rank = 0")
  case True
  from initialize_matrices_root [OF assms] obtain A B where
    "initialize_matrices mt g sz 0 = Inr (Some A, Some B)" by blast
  then show ?thesis using True by (simp add: mpi_matrix_multiply_def)
next
  case False
  then show ?thesis by (rule other_rank_at_bcast)
qed

lemma group_at_bcast:
  assumes "0 \<le> sz" and "1 \<le> k"
  shows "mpi_group mt g sz n k \<noteq> []" and "list_all (at_bcast 0) (mpi_group mt g sz n k)"
  using assms by (simp_all add: mpi_group_def list_all_iff rank_at_bcast)

lemma length_mpi_group: "length (mpi_group mt g sz n k) = nat k"
  by (simp add: mpi_group_def)

text \<open>A process count of 0.\<close>

lemma zero_procs_group:
  assumes "0 \<le> sz" and "1 \<le> k"
  shows "map (after_bcast v) (mpi_group mt g sz 0 k) = replicate (nat k) (Raise ZeroDivisionError)"
proof -
  have "map (after_bcast v) (mpi_group mt g sz 0 k)
          = map (\<lambda>rank. Raise ZeroDivisionError) [0..k - 1]"
    unfolding mpi_group_def map_map
    by (intro map_cong refl) (simp add: zero_procs_after rank_at_bcast [OF assms(1)])
  then show ?thesis by (simp add: map_replicate_const)
qed

text \<open>A negative process count with at least one row.\<close>

lemma negative_procs_program:
  assumes "0 < sz" and "n < 0" and "0 \<le> rank"
  shows "after_bcast v (mpi_matrix_multiply mt g sz rank n) = Raise ValueError"
proof -
  have "sz mod n \<le> 0" using assms(2) by (simp add: neg_mod_bound)
  then have "\<not> rank < sz mod n" using assms(3) by simp
  moreover have "sz div n < 0" using assms(1,2) by (simp add: neg_imp_zdiv_neg_iff)
  ultimately have rows: "fst (row_range sz rank n) < 0" by (simp add: row_range_rows)
  have n0: "n \<noteq> 0" using assms(2) by simp
  have "at_bcast 0 (mpi_matrix_multiply mt g sz rank n)"
    using assms(1) by (intro rank_at_bcast) simp
  then show ?thesis
    using rows n0
    by (simp add: mpi_matrix_multiply_def distribute_matrix_rows_def np_zeros_def
                  Let_def case_prod_beta split: sum.splits prod.splits)
qed

lemma negative_procs_group:
  assumes "0 < sz" and "n < 0" and "1 \<le> k"
  shows "map (after_bcast v) (mpi_group mt g sz n k) = replicate (nat k) (Raise ValueError)"
proof -
  have "map (after_bcast v) (mpi_group mt g sz n k) = map (\<lambda>rank. Raise ValueError) [0..k - 1]"
    unfolding mpi_group_def map_map
    by (intro map_cong refl) (simp add: negative_procs_program [OF assms(1,2)])
  then show ?thesis by (simp add: map_replicate_const)
qed

text \<open>A negative process count with no row: nothing is raised.\<close>

lemma empty_matrices: "initialize_matrices mt g 0 0 = Inr (Some [], Some [])"
  by (simp add: initialize_matrices_def np_random_rand_def Let_def)

lemma negative_procs_empty_root:
  assumes "n < 0"
  shows "mpi_matrix_multiply mt g 0 0 n = Bcast (Some []) 0 (\<lambda>B. Return (Some []))"
  using assms
  by (simp add: mpi_matrix_multiply_def empty_matrices distribute_matrix_rows_def row_range_def
                np_zeros_def py_slice_def py_index_def set_rows_def Let_def)

lemma negative_procs_empty_other:
  assumes "n < 0" and "0 < rank"
  shows "mpi_matrix_multiply mt g 0 rank n = Bcast None 0 (\<lambda>B. Return None)"
  using assms
  by (simp add: mpi_matrix_multiply_def initialize_matrices_def distribute_matrix_rows_def
                row_range_def np_zeros_def Let_def)

lemma negative_procs_empty_group:
  assumes "n < 0" and "1 \<le> k"
  shows "map (after_bcast v) (mpi_group mt g 0 n k)
           = Return (Some []) # replicate (nat k - 1) (Return None)"
proof -
  have "map (after_bcast v) (map (\<lambda>rank. mpi_matrix_multiply mt g 0 rank n) [1..k - 1])
          = map (\<lambda>rank. Return None) [1..k - 1]"
    unfolding map_map
    by (intro map_cong refl) (simp add: negative_procs_empty_other [OF assms(1)])
  then show ?thesis
    unfolding group_ranks [OF assms(2)] negative_procs_empty_root [OF assms(1)]
    by (simp add: map_replicate_const)
qed

lemma zero_procs_run:
  assumes "0 \<le> sz" and "1 \<le> k"
  shows "run (Suc fuel) (mpi_group mt g sz 0 k)
           = ([Broadcast 0], replicate (nat k) (Raise ZeroDivisionError))"
    and "execs (mpi_group mt g sz 0 k) es w'
           \<longleftrightarrow> es = [Broadcast 0] \<and> w' = replicate (nat k) (Raise ZeroDivisionError)"
  by (rule broadcast_then_leaves [OF group_at_bcast [OF assms] zero_procs_group [OF assms]], simp)+

lemma negative_procs_run:
  assumes "0 < sz" and "n < 0" and "1 \<le> k"
  shows "run (Suc fuel) (mpi_group mt g sz n k) = ([Broadcast 0], replicate (nat k) (Raise ValueError))"
    and "execs (mpi_group mt g sz n k) es w'
           \<longleftrightarrow> es = [Broadcast 0] \<and> w' = replicate (nat k) (Raise ValueError)"
proof -
  have sz: "0 \<le> sz" using assms(1) by simp
  show "run (Suc fuel) (mpi_group mt g sz n k) = ([Broadcast 0], replicate (nat k) (Raise ValueError))"
    by (rule broadcast_then_leaves [OF group_at_bcast [OF sz assms(3)] negative_procs_group [OF assms]])
       simp
  show "execs (mpi_group mt g sz n k) es w'
          \<longleftrightarrow> es = [Broadcast 0] \<and> w' = replicate (nat k) (Raise ValueError)"
    by (rule broadcast_then_leaves [OF group_at_bcast [OF sz assms(3)] negative_procs_group [OF assms]])
       simp
qed

lemma negative_procs_empty_run:
  assumes "n < 0" and "1 \<le> k"
  shows "run (Suc fuel) (mpi_group mt g 0 n k)
           = ([Broadcast 0], Return (Some []) # replicate (nat k - 1) (Return None))"
    and "execs (mpi_group mt g 0 n k) es w'
           \<longleftrightarrow> es = [Broadcast 0] \<and> w' = Return (Some []) # replicate (nat k - 1) (Return None)"
  by (rule broadcast_then_leaves
            [OF group_at_bcast [OF order_refl assms(2)] negative_procs_empty_group [OF assms]], simp)+

text \<open>
  Claim C6 says that with a process count of 0 or a negative size parameter the error is
  raised before any communication is attempted. On a group of two ranks: with
  \<open>num_procs = 0\<close> and 4 rows the broadcast takes place and only then every rank raises
  \<^verbatim>\<open>ZeroDivisionError\<close>; with \<open>num_procs = -1\<close> and 4 rows the broadcast takes place and
  then every rank raises \<^verbatim>\<open>ValueError\<close>; with \<open>num_procs = -1\<close> and 0 rows nothing is
  raised at all; and with the size \<open>-1\<close> the root raises, while rank 1 has called the
  broadcast and stays blocked in it, with no error of its own.
\<close>

theorem error_after_broadcast_counterexample:
  "run 2 (mpi_group ramp_stream used_rng 4 0 2)
     = ([Broadcast 0], [Raise ZeroDivisionError, Raise ZeroDivisionError])
   \<and> run 2 (mpi_group ramp_stream used_rng 4 (- 1) 2)
     = ([Broadcast 0], [Raise ValueError, Raise ValueError])
   \<and> run 2 (mpi_group ramp_stream used_rng 0 (- 1) 2)
     = ([Broadcast 0], [Return (Some []), Return None])
   \<and> fst (run 2 (mpi_group ramp_stream used_rng (- 1) 2 2)) = []
   \<and> snd (run 2 (mpi_group ramp_stream used_rng (- 1) 2 2)) ! 0 = Raise ValueError
   \<and> at_bcast 0 (snd (run 2 (mpi_group ramp_stream used_rng (- 1) 2 2)) ! 1)"
proof -
  have two: "(2::nat) = Suc 1" by simp
  have a: "run 2 (mpi_group ramp_stream used_rng 4 0 2)
             = ([Broadcast 0], [Raise ZeroDivisionError, Raise ZeroDivisionError])"
    unfolding two using zero_procs_run(1) [of 4 2 1 ramp_stream used_rng]
    by (simp add: numeral_2_eq_2)
  have b: "run 2 (mpi_group ramp_stream used_rng 4 (- 1) 2)
             = ([Broadcast 0], [Raise ValueError, Raise ValueError])"
    unfolding two using negative_procs_run(1) [of 4 "- 1" 2 1 ramp_stream used_rng]
    by (simp add: numeral_2_eq_2)
  have c: "run 2 (mpi_group ramp_stream used_rng 0 (- 1) 2)
             = ([Broadcast 0], [Return (Some []), Return None])"
    unfolding two using negative_procs_empty_run(1) [of "- 1" 2 1 ramp_stream used_rng]
    by (simp add: numeral_2_eq_2)
  have neg: "(- 1 :: int) < 0" "(1::int) \<le> 2" by simp_all
  have d: "run 2 (mpi_group ramp_stream used_rng (- 1) 2 2)
             = ([], mpi_group ramp_stream used_rng (- 1) 2 2)"
    by (rule run_no_step [OF negative_size_group(1) [OF neg]])
  have e: "mpi_group ramp_stream used_rng (- 1) 2 2 ! 0 = Raise ValueError"
    by (rule negative_size_group(2) [OF neg])
  have "(1::int) \<le> 1 \<and> (1::int) < 2 \<longrightarrow>
          at_bcast 0 (mpi_group ramp_stream used_rng (- 1) 2 2 ! nat 1)"
    by (rule negative_size_group(3) [OF neg, THEN spec])
  then have f: "at_bcast 0 (mpi_group ramp_stream used_rng (- 1) 2 2 ! 1)" by simp
  from a b c e f show ?thesis unfolding d by simp
qed

text \<open>
  Claim C6, amended. With a negative size the root raises \<^verbatim>\<open>ValueError\<close> before any
  communication; every other rank first calls the broadcast, and in a group of ranks
  that share the size no step ever happens: the root has raised and every other rank
  stays blocked in the broadcast and raises nothing. With a size that is not negative
  and \<open>num_procs = 0\<close>, every rank of the group takes part in the broadcast and raises
  \<^verbatim>\<open>ZeroDivisionError\<close> directly after it. With \<open>num_procs < 0\<close> and a positive size,
  every rank takes part in the broadcast and raises \<^verbatim>\<open>ValueError\<close> directly after it;
  with \<open>num_procs < 0\<close> and the size 0 nothing is raised: after the broadcast the root
  returns the empty matrix and every other rank \<open>None\<close>. In none of these cases is there a
  \<^verbatim>\<open>send\<close> or a \<^verbatim>\<open>recv\<close>, in the run of the scheduler or in any complete execution.
\<close>

theorem error_surfacing:
  fixes mt :: "int \<Rightarrow> nat \<Rightarrow> 'a::{zero,plus,times}"
  shows "(sz < 0 \<longrightarrow>
            mpi_matrix_multiply mt g sz 0 num_procs = Raise ValueError
          \<and> (rank \<noteq> 0 \<longrightarrow> at_bcast 0 (mpi_matrix_multiply mt g sz rank num_procs))
          \<and> (1 \<le> k \<longrightarrow>
                run fuel (mpi_group mt g sz num_procs k) = ([], mpi_group mt g sz num_procs k)
              \<and> (\<forall>es w'. execs (mpi_group mt g sz num_procs k) es w'
                            \<longleftrightarrow> es = [] \<and> w' = mpi_group mt g sz num_procs k)
              \<and> mpi_group mt g sz num_procs k ! 0 = Raise ValueError
              \<and> (\<forall>r. 1 \<le> r \<and> r < k \<longrightarrow> at_bcast 0 (mpi_group mt g sz num_procs k ! nat r))))
       \<and> (0 \<le> sz \<and> num_procs = 0 \<and> 1 \<le> k \<longrightarrow>
            run (Suc fuel) (mpi_group mt g sz num_procs k)
              = ([Broadcast 0], replicate (nat k) (Raise ZeroDivisionError))
          \<and> (\<forall>es w'. execs (mpi_group mt g sz num_procs k) es w'
                        \<longleftrightarrow> es = [Broadcast 0] \<and> w' = replicate (nat k) (Raise ZeroDivisionError)))
       \<and> (0 < sz \<and> num_procs < 0 \<and> 1 \<le> k \<longrightarrow>
            run (Suc fuel) (mpi_group mt g sz num_procs k)
              = ([Broadcast 0], replicate (nat k) (Raise ValueError))
          \<and> (\<forall>es w'. execs (mpi_group mt g sz num_procs k) es w'
                        \<longleftrightarrow> es = [Broadcast 0] \<and> w' = replicate (nat k) (Raise ValueError)))
       \<and> (sz = 0 \<and> num_procs < 0 \<and> 1 \<le> k \<longrightarrow>
            run (Suc fuel) (mpi_group mt g sz num_procs k)
              = ([Broadcast 0], Return (Some []) # replicate (nat k - 1) (Return None))
          \<and> (\<forall>es w'. execs (mpi_group mt g sz num_procs k) es w'
                        \<longleftrightarrow> es = [Broadcast 0]
                            \<and> w' = Return (Some []) # replicate (nat k - 1) (Return None)))"
proof (intro conjI impI allI)
  assume "sz < 0"
  then show "mpi_matrix_multiply mt g sz 0 num_procs = Raise ValueError"
    by (rule negative_size_root)
next
  assume "rank \<noteq> 0"
  then show "at_bcast 0 (mpi_matrix_multiply mt g sz rank num_procs)"
    by (rule other_rank_at_bcast)
next
  assume "sz < 0" and "1 \<le> k"
  then show "run fuel (mpi_group mt g sz num_procs k) = ([], mpi_group mt g sz num_procs k)"
    by (intro run_no_step negative_size_group(1))
next
  fix es w' assume "sz < 0" and "1 \<le> k"
  then show "execs (mpi_group mt g sz num_procs k) es w'
               \<longleftrightarrow> es = [] \<and> w' = mpi_group mt g sz num_procs k"
    by (intro execs_stuck negative_size_group(1))
next
  assume "sz < 0" and "1 \<le> k"
  then show "mpi_group mt g sz num_procs k ! 0 = Raise ValueError"
    by (rule negative_size_group(2))
next
  fix r assume "sz < 0" and "1 \<le> k" and "1 \<le> r \<and> r < k"
  then show "at_bcast 0 (mpi_group mt g sz num_procs k ! nat r)"
    using negative_size_group(3) by blast
next
  assume a: "0 \<le> sz \<and> num_procs = 0 \<and> 1 \<le> k"
  then have s: "0 \<le> sz" and n: "num_procs = 0" and k: "1 \<le> k" by simp_all
  show "run (Suc fuel) (mpi_group mt g sz num_procs k)
               = ([Broadcast 0], replicate (nat k) (Raise ZeroDivisionError))"
    unfolding n by (rule zero_procs_run(1) [OF s k])
next
  fix es w' assume a: "0 \<le> sz \<and> num_procs = 0 \<and> 1 \<le> k"
  then have s: "0 \<le> sz" and n: "num_procs = 0" and k: "1 \<le> k" by simp_all
  show "execs (mpi_group mt g sz num_procs k) es w'
               \<longleftrightarrow> es = [Broadcast 0] \<and> w' = replicate (nat k) (Raise ZeroDivisionError)"
    unfolding n by (rule zero_procs_run(2) [OF s k])
next
  assume a: "0 < sz \<and> num_procs < 0 \<and> 1 \<le> k"
  then have s: "0 < sz" and n: "num_procs < 0" and k: "1 \<le> k" by simp_all
  show "run (Suc fuel) (mpi_group mt g sz num_procs k)
               = ([Broadcast 0], replicate (nat k) (Raise ValueError))"
    by (rule negative_procs_run(1) [OF s n k])
next
  fix es w' assume a: "0 < sz \<and> num_procs < 0 \<and> 1 \<le> k"
  then have s: "0 < sz" and n: "num_procs < 0" and k: "1 \<le> k" by simp_all
  show "execs (mpi_group mt g sz num_procs k) es w'
               \<longleftrightarrow> es = [Broadcast 0] \<and> w' = replicate (nat k) (Raise ValueError)"
    by (rule negative_procs_run(2) [OF s n k])
next
  assume a: "sz = 0 \<and> num_procs < 0 \<and> 1 \<le> k"
  then have s: "sz = 0" and n: "num_procs < 0" and k: "1 \<le> k" by simp_all
  show "run (Suc fuel) (mpi_group mt g sz num_procs k)
               = ([Broadcast 0], Return (Some []) # replicate (nat k - 1) (Return None))"
    unfolding s by (rule negative_procs_empty_run(1) [OF n k])
next
  fix es w' assume a: "sz = 0 \<and> num_procs < 0 \<and> 1 \<le> k"
  then have s: "sz = 0" and n: "num_procs < 0" and k: "1 \<le> k" by simp_all
  show "execs (mpi_group mt g sz num_procs k) es w'
               \<longleftrightarrow> es = [Broadcast 0]
                   \<and> w' = Return (Some []) # replicate (nat k - 1) (Return None)"
    unfolding s by (rule negative_procs_empty_run(2) [OF n k])
qed

theorem error_surfacing_witness:
  "mpi_matrix_multiply ramp_stream used_rng (- 1) 0 2 = Raise ValueError
   \<and> at_bcast 0 (mpi_matrix_multiply ramp_stream used_rng (- 1) 1 2)
   \<and> run 3 (mpi_group ramp_stream used_rng (- 1) 2 2) = ([], mpi_group ramp_stream used_rng (- 1) 2 2)
   \<and> at_bcast 0 (mpi_group ramp_stream used_rng (- 1) 2 2 ! 1)
   \<and> run (Suc 3) (mpi_group ramp_stream used_rng 4 0 2)
       = ([Broadcast 0], [Raise ZeroDivisionError, Raise ZeroDivisionError])
   \<and> run (Suc 3) (mpi_group ramp_stream used_rng 4 (- 2) 2)
       = ([Broadcast 0], [Raise ValueError, Raise ValueError])
   \<and> run (Suc 3) (mpi_group ramp_stream used_rng 0 (- 2) 2)
       = ([Broadcast 0], [Return (Some []), Return None])"
proof -
  note neg = error_surfacing [where mt = ramp_stream and g = used_rng and sz = "- 1"
                                and num_procs = 2 and rank = 1 and k = 2 and fuel = 3,
                              THEN conjunct1, THEN mp]
  note zero = error_surfacing [where mt = ramp_stream and g = used_rng and sz = 4
                                 and num_procs = 0 and rank = 1 and k = 2 and fuel = 3,
                               THEN conjunct2, THEN conjunct1, THEN mp]
  note below = error_surfacing [where mt = ramp_stream and g = used_rng and sz = 4
                                  and num_procs = "- 2" and rank = 1 and k = 2 and fuel = 3,
                                THEN conjunct2, THEN conjunct2, THEN conjunct1, THEN mp]
  note none = error_surfacing [where mt = ramp_stream and g = used_rng and sz = 0
                                 and num_procs = "- 2" and rank = 1 and k = 2 and fuel = 3,
                               THEN conjunct2, THEN conjunct2, THEN conjunct2, THEN mp]
  have a: "mpi_matrix_multiply ramp_stream used_rng (- 1) 0 2 = Raise ValueError"
    using neg by simp
  have b: "at_bcast 0 (mpi_matrix_multiply ramp_stream used_rng (- 1) 1 2)"
    using neg by simp
  have c: "run 3 (mpi_group ramp_stream used_rng (- 1) 2 2)
             = ([], mpi_group ramp_stream used_rng (- 1) 2 2)"
    using neg by simp
  have "\<forall>r. 1 \<le> r \<and> r < 2 \<longrightarrow>
          at_bcast 0 (mpi_group ramp_stream used_rng (- 1) 2 2 ! nat r)"
    using neg by simp
  from this [THEN spec, of 1]
  have d: "at_bcast 0 (mpi_group ramp_stream used_rng (- 1) 2 2 ! 1)" by simp
  have e: "run (Suc 3) (mpi_group ramp_stream used_rng 4 0 2)
             = ([Broadcast 0], [Raise ZeroDivisionError, Raise ZeroDivisionError])"
    using zero by (simp add: numeral_2_eq_2 del: run.simps)
  have f: "run (Suc 3) (mpi_group ramp_stream used_rng 4 (- 2) 2)
             = ([Broadcast 0], [Raise ValueError, Raise ValueError])"
    using below by (simp add: numeral_2_eq_2 del: run.simps)
  have h: "run (Suc 3) (mpi_group ramp_stream used_rng 0 (- 2) 2)
             = ([Broadcast 0], [Return (Some []), Return None])"
    using none by (simp add: numeral_2_eq_2 del: run.simps)
  from a b c d e f h show ?thesis by (intro conjI)
qed

section \<open>The verification harness\<close>

subsection \<open>The comparison\<close>

lemma set_prog_bind: "set_prog (bind p f) = (\<Union>x \<in> set_prog p. set_prog (f x))"
  by (induction p) auto

lemma same_shape_nth:
  assumes "same_shape a b"
  shows "length a = length b" and "\<forall>i < length a. length (a ! i) = length (b ! i)"
  using assms by (simp_all add: same_shape_def list_all2_conv_all_nth)

lemma np_allclose_iff:
  assumes "same_shape a b"
  shows "np_allclose a b rtol atol
           = Inr (\<forall>i < length a. \<forall>j < length (a ! i).
                    \<bar>a ! i ! j - b ! i ! j\<bar> \<le> atol + rtol * \<bar>b ! i ! j\<bar>)"
  using assms same_shape_nth [OF assms]
  by (simp add: np_allclose_def list_all2_conv_all_nth)

lemma set_concat_abs_diff:
  assumes "same_shape a b"
  shows "set (concat (map2 (map2 (\<lambda>x y. \<bar>x - y\<bar>)) a b))
           = {\<bar>a ! i ! j - b ! i ! j\<bar> | i j. i < length a \<and> j < length (a ! i)}"
    (is "set (concat ?D) = ?R")
proof -
  note shape = same_shape_nth [OF assms]
  have len: "length ?D = length a" using shape(1) by simp
  have row: "?D ! i = map2 (\<lambda>x y. \<bar>x - y\<bar>) (a ! i) (b ! i)" if "i < length a" for i
    using that shape(1) by simp
  have len_row: "length (?D ! i) = length (a ! i)" if "i < length a" for i
    using that shape(2) by (simp add: row)
  have elem: "?D ! i ! j = \<bar>a ! i ! j - b ! i ! j\<bar>" if "i < length a" "j < length (a ! i)" for i j
    using that shape(2) by (simp add: row)
  show ?thesis
  proof (intro equalityI subsetI)
    fix v assume "v \<in> set (concat ?D)"
    then obtain r where "r \<in> set ?D" and "v \<in> set r"
      unfolding set_concat by blast
    then obtain i j where "i < length ?D" "r = ?D ! i" "j < length r" "v = r ! j"
      unfolding in_set_conv_nth by blast
    then have "i < length a" "j < length (a ! i)" "v = \<bar>a ! i ! j - b ! i ! j\<bar>"
      using len len_row elem by simp_all
    then show "v \<in> ?R" by blast
  next
    fix v assume "v \<in> ?R"
    then obtain i j where ij: "i < length a" "j < length (a ! i)" and v: "v = \<bar>a ! i ! j - b ! i ! j\<bar>"
      by blast
    have "?D ! i \<in> set ?D" using ij(1) len by (intro nth_mem) simp
    moreover have "?D ! i ! j \<in> set (?D ! i)" using ij len_row by (intro nth_mem) simp
    ultimately have "?D ! i ! j \<in> set (concat ?D)" unfolding set_concat by blast
    then show "v \<in> set (concat ?D)" using v elem [OF ij] by simp
  qed
qed

lemma np_max_abs_diff:
  assumes "same_shape a b" and "i < length a" and "j < length (a ! i)"
  shows "np_max (map2 (map2 (\<lambda>x y. \<bar>x - y\<bar>)) a b)
           = Inr (Max {\<bar>a ! i ! j - b ! i ! j\<bar> | i j. i < length a \<and> j < length (a ! i)})"
proof -
  let ?D = "map2 (map2 (\<lambda>x y. \<bar>x - y\<bar>)) a b"
  have s: "set (concat ?D) = {\<bar>a ! i ! j - b ! i ! j\<bar> | i j. i < length a \<and> j < length (a ! i)}"
    by (rule set_concat_abs_diff [OF assms(1)])
  have "\<bar>a ! i ! j - b ! i ! j\<bar> \<in> set (concat ?D)" unfolding s using assms(2,3) by blast
  then obtain x xs where c: "concat ?D = x # xs" by (cases "concat ?D") auto
  have "fold max xs x = Max (set (x # xs))" by (rule Max.set_eq_fold [symmetric])
  then show ?thesis unfolding np_max_def c using s c by simp
qed

lemma verify_compare_root:
  assumes "same_shape S M"
  shows "verify_compare 0 (Some S) out (Some M) =
           (if \<forall>i < length S. \<forall>j < length (S ! i).
                 \<bar>S ! i ! j - M ! i ! j\<bar> \<le> 1 / 10 ^ 10 + 1 / 10 ^ 10 * \<bar>M ! i ! j\<bar>
            then Return (Some True, out @ [Correct])
            else Return (Some False,
                         out @ [HasErrors,
                                MaxDifference (Max {\<bar>S ! i ! j - M ! i ! j\<bar> | i j.
                                                     i < length S \<and> j < length (S ! i)})]))"
proof (cases "\<forall>i < length S. \<forall>j < length (S ! i).
                 \<bar>S ! i ! j - M ! i ! j\<bar> \<le> 1 / 10 ^ 10 + 1 / 10 ^ 10 * \<bar>M ! i ! j\<bar>")
  case True
  have "np_allclose S M (1 / 10 ^ 10) (1 / 10 ^ 10) = Inr True"
    unfolding np_allclose_iff [OF assms] using True by simp
  then show ?thesis using True by (simp only: verify_compare_def) simp
next
  case False
  have close: "np_allclose S M (1 / 10 ^ 10) (1 / 10 ^ 10) = Inr False"
    unfolding np_allclose_iff [OF assms] using False by simp
  from False obtain i j where "i < length S" "j < length (S ! i)" by blast
  then have "np_max (map2 (map2 (\<lambda>x y. \<bar>x - y\<bar>)) S M)
           = Inr (Max {\<bar>S ! i ! j - M ! i ! j\<bar> | i j. i < length S \<and> j < length (S ! i)})"
    by (rule np_max_abs_diff [OF assms])
  moreover have "np_abs_diff S M = Inr (map2 (map2 (\<lambda>x y. \<bar>x - y\<bar>)) S M)"
    using assms by (simp add: np_abs_diff_def)
  ultimately show ?thesis using False close by (simp only: verify_compare_def) simp
qed

lemma verify_compare_leaf: "leaf (verify_compare rank C_serial out C_mpi)"
  by (simp add: verify_compare_def split: option.splits sum.splits)

lemma verify_compare_other:
  assumes "rank \<noteq> 0"
  shows "verify_compare rank C_serial out C_mpi = Return (None, out)"
  using assms by (simp add: verify_compare_def)

lemma verify_correctness_other:
  assumes "rank \<noteq> 0"
  shows "verify_correctness mt g sz comm rank
           = bind (mpi_matrix_multiply mt g sz rank (Get_size comm)) (\<lambda>C_mpi. Return (None, []))"
proof -
  have "verify_compare rank None [] = (\<lambda>C_mpi. Return (None, []))"
    using assms by (intro ext) (simp add: verify_compare_def)
  then show ?thesis using assms by (simp add: verify_correctness_def)
qed

lemma mpi_program_ignores_rng:
  "mpi_matrix_multiply mt g sz rank n = mpi_matrix_multiply mt g' sz rank n"
  by (simp add: mpi_matrix_multiply_def initialize_matrices_def)

lemma verify_correctness_root:
  assumes "initialize_matrices mt g sz 0 = Inr (Some A, Some B)"
  shows "verify_correctness mt g sz comm 0
           = bind (mpi_matrix_multiply mt g sz 0 (Get_size comm))
               (verify_compare 0 (Some (map (\<lambda>row. dot_row row B) A)) [Verifying sz])"
proof -
  from assms obtain g1 g2 where
    "np_random_rand (np_random_seed mt 42) sz sz = Inr (A, g1)"
    "np_random_rand g1 sz sz = Inr (B, g2)"
    by (auto simp: initialize_matrices_def Let_def split: sum.splits prod.splits)
  moreover have "np_dot A B = Inr (map (\<lambda>row. dot_row row B) A)"
    by (rule np_dot_square [OF assms])
  ultimately show ?thesis
    by (simp add: verify_correctness_def Let_def mpi_program_ignores_rng [of mt g2 sz 0 _ g])
qed

subsection \<open>Continuing after the call\<close>

text \<open>
  Sequencing with continuations that make no call does not change the steps of a world.
\<close>

lemma leaf_inert:
  assumes "leaf p"
  shows "\<not> at_bcast r p" and "\<not> matches s t p" and "after_bcast v p = p" and "receive m p = p"
  using assms by (cases p; simp)+

lemma bind_inert:
  assumes "\<forall>x. leaf (f x)"
  shows "at_bcast r (bind p f) = at_bcast r p"
    and "matches s t (bind p f) = matches s t p"
    and "after_bcast v (bind p f) = bind (after_bcast v p) f"
    and "receive m (bind p f) = bind (receive m p) f"
  using assms by (cases p; simp add: leaf_inert)+

lemma length_then_each [simp]: "length (then_each fs w) = length w"
  by (simp add: then_each_def)

lemma nth_then_each [simp]: "i < length w \<Longrightarrow> then_each fs w ! i = bind (w ! i) (fs i)"
  by (simp add: then_each_def)

lemma then_each_update:
  assumes "i < length w"
  shows "then_each fs (w[i := p]) = (then_each fs w)[i := bind p (fs i)]"
  using assms by (intro nth_equalityI) (auto simp: nth_list_update)

lemma then_each_map:
  "then_each fs (map h w) = map (\<lambda>i. bind (h (w ! i)) (fs i)) [0..<length w]"
  by (simp add: then_each_def)

lemma bcast_ready_iff:
  "bcast_ready w = Some r \<longleftrightarrow> w \<noteq> [] \<and> 0 \<le> r \<and> nat r < length w \<and> list_all (at_bcast r) w"
proof (cases w)
  case Nil
  then show ?thesis by (simp add: bcast_ready_def)
next
  case (Cons p ws)
  then show ?thesis by (cases p) (auto simp: bcast_ready_def)
qed

lemma bcast_ready_then_each:
  assumes "\<forall>i x. leaf (fs i x)"
  shows "bcast_ready (then_each fs w) = bcast_ready w"
proof -
  have all: "list_all (at_bcast r) (then_each fs w) = list_all (at_bcast r) w" for r
    using assms by (simp add: list_all_length bind_inert)
  have nil: "then_each fs w \<noteq> [] \<longleftrightarrow> w \<noteq> []"
    by (simp add: then_each_def)
  have eq: "bcast_ready (then_each fs w) = Some r \<longleftrightarrow> bcast_ready w = Some r" for r
    unfolding bcast_ready_iff all nil by simp
  show ?thesis
  proof (cases "bcast_ready w")
    case None
    then have "\<forall>r. bcast_ready (then_each fs w) \<noteq> Some r" using eq by simp
    then have "bcast_ready (then_each fs w) = None" by (simp only: not_Some_eq)
    then show ?thesis using None by simp
  next
    case (Some r)
    then have "bcast_ready (then_each fs w) = Some r" by (simp only: eq)
    then show ?thesis using Some by simp
  qed
qed

lemma try_deliver_then_each:
  assumes "\<forall>i x. leaf (fs i x)" and "i < length w"
  shows "try_deliver (then_each fs w) i
           = map_option (\<lambda>(e, w'). (e, then_each fs w')) (try_deliver w i)"
proof (cases "w ! i")
  case (Send m d t k)
  show ?thesis
  proof (cases "0 \<le> d \<and> nat d < length w \<and> matches (int i) t (w ! nat d)")
    case True
    then have d: "nat d < length w" by simp
    have "then_each fs (w[i := k, nat d := receive m (w ! nat d)])
            = (then_each fs w)[i := bind k (fs i), nat d := bind (receive m (w ! nat d)) (fs (nat d))]"
      using assms(2) d by (simp add: then_each_update)
    then show ?thesis
      using True Send assms by (simp add: try_deliver_def bind_inert)
  next
    case False
    then show ?thesis
      using Send assms by (auto simp: try_deliver_def bind_inert)
  qed
next
  case (Return x)
  from assms(1) have "leaf (fs i x)" by simp
  then have "try_deliver (then_each fs w) i = None"
    using Return assms(2) by (cases "fs i x") (simp_all add: try_deliver_def)
  then show ?thesis using Return by (simp add: try_deliver_def)
qed (use assms(2) in \<open>simp_all add: try_deliver_def\<close>)

lemma first_delivery_then_each:
  assumes "\<forall>i x. leaf (fs i x)" and "\<forall>i \<in> set js. i < length w"
  shows "first_delivery (then_each fs w) js
           = map_option (\<lambda>(e, w'). (e, then_each fs w')) (first_delivery w js)"
  using assms(2)
proof (induction js)
  case Nil
  show ?case by simp
next
  case (Cons i js)
  then show ?case
    by (cases "try_deliver w i") (simp_all add: try_deliver_then_each [OF assms(1)])
qed

lemma world_step_then_each:
  assumes "\<forall>i x. leaf (fs i x)"
  shows "world_step (then_each fs w)
           = map_option (\<lambda>(e, w'). (e, then_each fs w')) (world_step w)"
proof (cases "bcast_ready w")
  case None
  then show ?thesis
    by (simp add: world_step_def bcast_ready_then_each [OF assms]
                  first_delivery_then_each [OF assms])
next
  case (Some r)
  then have r: "nat r < length w" and all: "list_all (at_bcast r) w"
    by (simp_all add: bcast_ready_iff)
  then have "at_bcast r (w ! nat r)" by (simp add: list_all_length)
  then obtain v k where root: "w ! nat r = Bcast v r k" by (cases "w ! nat r") simp_all
  have "map (after_bcast v) (then_each fs w) = then_each fs (map (after_bcast v) w)"
    using assms by (intro nth_equalityI) (simp_all add: bind_inert)
  then show ?thesis
    using Some r root by (simp add: world_step_def bcast_ready_then_each [OF assms])
qed

lemma run_then_each:
  assumes "\<forall>i x. leaf (fs i x)"
  shows "run fuel (then_each fs w) = (fst (run fuel w), then_each fs (snd (run fuel w)))"
proof (induction fuel arbitrary: w)
  case 0
  show ?case by simp
next
  case (Suc fuel)
  show ?case
  proof (cases "world_step w")
    case None
    then show ?thesis by (simp add: world_step_then_each [OF assms])
  next
    case (Some ew)
    then show ?thesis
      by (cases ew) (simp add: world_step_then_each [OF assms] Suc.IH split: prod.splits)
  qed
qed

subsection \<open>The run of the harness\<close>

lemma nth_all_ranks:
  assumes "i < nat n"
  shows "[0..n - 1] ! i = int i"
  using assms by (simp add: nth_upto)

lemma verify_world_then_each:
  assumes "initialize_matrices mt g sz 0 = Inr (Some A, Some B)"
  shows "verify_world mt g sz n =
           then_each (\<lambda>i. verify_compare (int i)
                             (if i = 0 then Some (map (\<lambda>row. dot_row row B) A) else None)
                             (if i = 0 then [Verifying sz] else []))
             (mpi_world mt g sz n)"
proof (rule nth_equalityI)
  show "length (verify_world mt g sz n) = length (then_each (\<lambda>i. verify_compare (int i)
                             (if i = 0 then Some (map (\<lambda>row. dot_row row B) A) else None)
                             (if i = 0 then [Verifying sz] else []))
             (mpi_world mt g sz n))"
    by (simp add: verify_world_def mpi_world_def)
next
  fix i assume "i < length (verify_world mt g sz n)"
  then have i: "i < nat n" by (simp add: verify_world_def)
  note rank = nth_all_ranks [OF i]
  show "verify_world mt g sz n ! i = then_each (\<lambda>i. verify_compare (int i)
                             (if i = 0 then Some (map (\<lambda>row. dot_row row B) A) else None)
                             (if i = 0 then [Verifying sz] else []))
             (mpi_world mt g sz n) ! i"
  proof (cases "i = 0")
    case True
    then show ?thesis
      using i rank verify_correctness_root [OF assms, of "\<lparr>Get_size = n\<rparr>"]
      by (simp add: verify_world_def mpi_world_def)
  next
    case False
    then have "int i \<noteq> 0" by simp
    then have "verify_correctness mt g sz \<lparr>Get_size = n\<rparr> (int i)
                 = bind (mpi_matrix_multiply mt g sz (int i) n) (verify_compare (int i) None [])"
      by (simp add: verify_correctness_def)
    then show ?thesis
      using i rank False by (simp add: verify_world_def mpi_world_def)
  qed
qed

lemma same_shape_refl: "same_shape C C"
  by (simp add: same_shape_def list_all2_same)

lemma verify_run:
  assumes "0 \<le> sz" and "1 \<le> n"
  shows "snd (run (2 * nat n) (verify_world mt g sz n))
           = Return (Some True, [Verifying sz, Correct]) # replicate (nat n - 1) (Return (None, []))"
proof -
  from initialize_matrices_root [OF assms(1)] obtain A B where
    init: "initialize_matrices mt g sz 0 = Inr (Some A, Some B)" by blast
  let ?P = "map (\<lambda>row. dot_row row B) A"
  let ?fs = "\<lambda>i. verify_compare (int i) (if i = 0 then Some ?P else None)
                    (if i = 0 then [Verifying sz] else [])"
  let ?final = "Return (Some ?P) # map (\<lambda>r. Return None) [1..n - 1]"
  have leafs: "\<forall>i x. leaf (?fs i x)" by (simp add: verify_compare_leaf)
  have "snd (run (2 * nat n) (mpi_world mt g sz n)) = ?final"
    using world_run [OF assms init order_refl] by simp
  then have run: "snd (run (2 * nat n) (verify_world mt g sz n)) = then_each ?fs ?final"
    unfolding verify_world_then_each [OF init] run_then_each [OF leafs] by simp
  have root: "verify_compare 0 (Some ?P) [Verifying sz] (Some ?P)
                = Return (Some True, [Verifying sz, Correct])"
    by (simp add: verify_compare_root [OF same_shape_refl])
  have "then_each ?fs ?final
          = Return (Some True, [Verifying sz, Correct]) # replicate (nat n - 1) (Return (None, []))"
  proof (rule nth_equalityI)
    show "length (then_each ?fs ?final)
            = length (Return (Some True, [Verifying sz, Correct])
                        # replicate (nat n - 1) (Return (None, [])))"
      by simp
  next
    fix i assume "i < length (then_each ?fs ?final)"
    then have i: "i < Suc (nat n - 1)" by simp
    show "then_each ?fs ?final ! i
            = (Return (Some True, [Verifying sz, Correct])
                 # replicate (nat n - 1) (Return (None, []))) ! i"
    proof (cases i)
      case 0
      then show ?thesis using root by simp
    next
      case (Suc j)
      then have "j < nat n - 1" using i by simp
      then show ?thesis using Suc by (simp add: verify_compare_other)
    qed
  qed
  then show ?thesis using run by simp
qed

lemma verify_other_returns:
  assumes "rank \<noteq> 0"
  shows "\<forall>x \<in> set_prog (verify_correctness mt g sz comm rank). x = (None, [])"
  unfolding verify_correctness_other [OF assms] set_prog_bind by simp

text \<open>
  Claim C9. On the root, \<^verbatim>\<open>verify_correctness\<close> runs the distributed call and hands
  its result, with the serial product, to the comparison. On two arrays of the same shape
  the comparison returns \<open>True\<close> exactly when every pair of elements satisfies
  \<open>\<bar>serial - mpi\<bar> \<le> 1e-10 + 1e-10 * \<bar>mpi\<bar>\<close>; otherwise it returns \<open>False\<close> and prints the
  largest absolute difference of two elements. On every other rank every possible return
  value is \<open>None\<close>. In the run of the harness on a group of \<open>num_procs \<ge> 1\<close> ranks with
  \<open>sz \<ge> 0\<close>, the root returns \<open>True\<close> and every other rank returns \<open>None\<close>.
\<close>

theorem verification_result:
  shows "(\<forall>S M out. same_shape S M \<longrightarrow>
            verify_compare 0 (Some S) out (Some M) =
              (if \<forall>i < length S. \<forall>j < length (S ! i).
                    \<bar>S ! i ! j - M ! i ! j\<bar> \<le> 1 / 10 ^ 10 + 1 / 10 ^ 10 * \<bar>M ! i ! j\<bar>
               then Return (Some True, out @ [Correct])
               else Return (Some False,
                            out @ [HasErrors,
                                   MaxDifference (Max {\<bar>S ! i ! j - M ! i ! j\<bar> | i j.
                                                        i < length S \<and> j < length (S ! i)})])))
       \<and> (0 \<le> sz \<longrightarrow>
            (\<exists>A B C_serial.
               initialize_matrices mt g sz 0 = Inr (Some A, Some B)
             \<and> serial_matrix_multiply A B = Inr C_serial
             \<and> verify_correctness mt g sz comm 0
                 = bind (mpi_matrix_multiply mt g sz 0 (Get_size comm))
                     (verify_compare 0 (Some C_serial) [Verifying sz])))
       \<and> (rank \<noteq> 0 \<longrightarrow> (\<forall>x \<in> set_prog (verify_correctness mt g sz comm rank). x = (None, [])))
       \<and> (0 \<le> sz \<and> 1 \<le> num_procs \<longrightarrow>
            snd (run (2 * nat num_procs) (verify_world mt g sz num_procs))
              = Return (Some True, [Verifying sz, Correct])
                  # replicate (nat num_procs - 1) (Return (None, [])))"
proof -
  have root: "\<exists>A B C_serial.
               initialize_matrices mt g sz 0 = Inr (Some A, Some B)
             \<and> serial_matrix_multiply A B = Inr C_serial
             \<and> verify_correctness mt g sz comm 0
                 = bind (mpi_matrix_multiply mt g sz 0 (Get_size comm))
                     (verify_compare 0 (Some C_serial) [Verifying sz])"
    if "0 \<le> sz"
  proof -
    from initialize_matrices_root [OF that] obtain A B where
      init: "initialize_matrices mt g sz 0 = Inr (Some A, Some B)" by blast
    have "serial_matrix_multiply A B = Inr (map (\<lambda>row. dot_row row B) A)"
      unfolding serial_matrix_multiply_def by (rule np_dot_square [OF init])
    with init verify_correctness_root [OF init] show ?thesis by blast
  qed
  show ?thesis
    using verify_compare_root root verify_other_returns verify_run by blast
qed

theorem verification_result_witness:
  "verify_compare 0 (Some [[1]]) [] (Some [[1]]) = Return (Some True, [Correct])
   \<and> verify_compare 0 (Some [[1]]) [] (Some [[2]]) = Return (Some False, [HasErrors, MaxDifference 1])
   \<and> set_prog (verify_correctness ramp_stream used_rng 2 \<lparr>Get_size = 2\<rparr> 1) \<subseteq> {(None, [])}
   \<and> snd (run (2 * nat 2) (verify_world ramp_stream used_rng 2 2))
       = [Return (Some True, [Verifying 2, Correct]), Return (None, [])]"
proof -
  note t = verification_result [where mt = ramp_stream and g = used_rng and sz = 2
                               and comm = "\<lparr>Get_size = 2\<rparr>" and rank = 1 and num_procs = 2]
  have shape: "same_shape [[1::real]] [[1::real]]" "same_shape [[1::real]] [[2::real]]"
    by (simp_all add: same_shape_def)
  have set1: "{\<bar>[[1::real]] ! i ! j - [[2]] ! i ! j\<bar> | i j. i < length [[1::real]] \<and> j < length ([[1::real]] ! i)} = {1}"
    by auto
  from t have cmp: "\<And>S M out. same_shape S M \<Longrightarrow>
            verify_compare 0 (Some S) out (Some M) =
              (if \<forall>i < length S. \<forall>j < length (S ! i).
                    \<bar>S ! i ! j - M ! i ! j\<bar> \<le> 1 / 10 ^ 10 + 1 / 10 ^ 10 * \<bar>M ! i ! j\<bar>
               then Return (Some True, out @ [Correct])
               else Return (Some False,
                            out @ [HasErrors,
                                   MaxDifference (Max {\<bar>S ! i ! j - M ! i ! j\<bar> | i j.
                                                        i < length S \<and> j < length (S ! i)})]))"
    by blast
  have a: "verify_compare 0 (Some [[1]]) [] (Some [[1]]) = Return (Some True, [Correct])"
    unfolding cmp [OF shape(1)] by simp
  have b: "verify_compare 0 (Some [[1]]) [] (Some [[2]]) = Return (Some False, [HasErrors, MaxDifference 1])"
    unfolding cmp [OF shape(2)] set1 by simp
  from t have c: "set_prog (verify_correctness ramp_stream used_rng 2 \<lparr>Get_size = 2\<rparr> 1) \<subseteq> {(None, [])}"
    by auto
  from t have "snd (run (2 * nat 2) (verify_world ramp_stream used_rng 2 2))
              = Return (Some True, [Verifying 2, Correct]) # replicate (nat 2 - 1) (Return (None, []))"
    by simp
  then have d: "snd (run (2 * nat 2) (verify_world ramp_stream used_rng 2 2))
       = [Return (Some True, [Verifying 2, Correct]), Return (None, [])]"
    by simp
  from a b c d show ?thesis by blast
qed

end
